theory Spec2Isabelle
  imports Complex_Main
begin

section \<open>Correlated bandits: float arithmetic and the Successive Rejects schedule\<close>

text \<open>
  The development follows \<^verbatim>\<open>src/bandits/CorrelatedBandit.ipynb\<close>.

  The schedule of Successive Rejects takes a ceiling of a quotient of Python floats, so
  the rounding of each float operation can change its integers. It is therefore computed
  in an explicit float arithmetic \<open>fp\<close>: \<open>rnd fp x\<close> is the float that the exact result \<open>x\<close>
  of an operation (or of the conversion of an integer) is rounded to, and \<open>fsum fp xs\<close> is
  what the built-in \<^verbatim>\<open>sum\<close> returns on the floats \<open>xs\<close> (a left-to-right rounded sum or a
  compensated one, depending on the interpreter). An arithmetic is any pair of a
  monotone rounding that keeps \<open>0\<close>, \<open>1/2\<close> and \<open>1\<close> and a summation that is \<open>0\<close> on no terms
  and non-negative on non-negative terms. IEEE double arithmetic is one (overflow aside),
  and so is exact arithmetic, \<open>exact_arith\<close>. Everything proved below holds for every
  arithmetic.

  The statistics of the samples, further below, are read over the real numbers; the one
  non-real float value they can produce, NaN, is a value of its own there.
\<close>

typedef float_arith =
  "{(r :: real \<Rightarrow> real, s :: real list \<Rightarrow> real).
      mono r \<and> r 0 = 0 \<and> r (1 / 2) = 1 / 2 \<and> r 1 = 1
      \<and> s [] = 0 \<and> (\<forall>xs. list_all (\<lambda>x. 0 \<le> x) xs \<longrightarrow> 0 \<le> s xs)}"
  by (rule exI [of _ "(\<lambda>x. x, sum_list)"]) (simp add: mono_def sum_list_nonneg list_all_iff)

definition rnd :: "float_arith \<Rightarrow> real \<Rightarrow> real" where
  "rnd fp = fst (Rep_float_arith fp)"

definition fsum :: "float_arith \<Rightarrow> real list \<Rightarrow> real" where
  "fsum fp = snd (Rep_float_arith fp)"

definition exact_arith :: float_arith where
  "exact_arith = Abs_float_arith (\<lambda>x. x, sum_list)"

subsection \<open>\<^verbatim>\<open>sr_trials\<close>\<close>

text \<open>
  \<^verbatim>\<open>ck = (K-1)/2 + sum(j/(K-j) for j in range(1, K-1))\<close>: each true division of two
  integers is rounded, the quotients are summed by \<^verbatim>\<open>sum\<close>, and the final addition is
  rounded. The number of arms \<open>K\<close> is a natural number; \<open>range(1, K-1)\<close> is empty for
  \<open>K \<le> 2\<close>, as \<open>[1..<K-1]\<close> is.
\<close>

definition sr_ck :: "float_arith \<Rightarrow> nat \<Rightarrow> real" where
  "sr_ck fp K =
     rnd fp (rnd fp ((real K - 1) / 2)
             + fsum fp (map (\<lambda>j. rnd fp (real j / (real K - real j))) [1..<K - 1]))"

text \<open>
  The exact number \<open>K(K-1)/2\<close>. The code's \<^verbatim>\<open>K2 = K*(K-1)/2\<close> is an integer product followed
  by a true division: the float \<open>rnd fp (sr_K2 K)\<close>.
\<close>

definition sr_K2 :: "nat \<Rightarrow> real" where
  "sr_K2 K = real K * (real K - 1) / 2"

text \<open>
  \<^verbatim>\<open>return [-(-(n-K2) // (ck*(K+1-k))) for k in range(1, K)]\<close>.
  In \<^verbatim>\<open>n-K2\<close> the integer \<open>n\<close> is converted to a float and the difference rounded; in
  \<^verbatim>\<open>ck*(K+1-k)\<close> the integer \<open>K+1-k\<close> is converted and the product rounded. Negation is
  exact. Float floor division \<^verbatim>\<open>//\<close> returns the floor of the exact quotient of its two
  float operands (it is computed from the exact remainder \<^verbatim>\<open>fmod\<close>), an integral float,
  returned here as the integer it denotes. The divisor is positive whenever the
  comprehension has an element (lemma \<open>sr_divisor_pos\<close>), so the division cannot raise.
\<close>

definition sr_trials :: "float_arith \<Rightarrow> int \<Rightarrow> nat \<Rightarrow> int list" where
  "sr_trials fp n K =
     (let ck = sr_ck fp K; K2 = rnd fp (sr_K2 K)
      in map (\<lambda>k. - \<lfloor>(- rnd fp (rnd fp (real_of_int n) - K2))
                       / rnd fp (ck * rnd fp (real K + 1 - real k))\<rfloor>) [1..<K])"

text \<open>\<^verbatim>\<open>ns = [0] + sr_trials(trials, bandit.num_arms)\<close> in \<^verbatim>\<open>successive_rejects\<close>.\<close>

definition sr_ns :: "float_arith \<Rightarrow> int \<Rightarrow> nat \<Rightarrow> int list" where
  "sr_ns fp trials K = 0 # sr_trials fp trials K"



section \<open>Values, errors and the numpy primitives\<close>

text \<open>
  The exceptions the notebook's code can raise. \<open>SourceError\<close> stands for an exception
  raised inside the distribution library behind \<^verbatim>\<open>_sample_distr\<close>. \<open>InvalidBudget\<close> is the
  error kind named by the specification; no statement of the source raises it.
\<close>

datatype error = ValueError | IndexError | KeyError | UnboundLocalError | ZeroDivisionError
  | SourceError | InvalidBudget

definition ebind :: "error + 'a \<Rightarrow> ('a \<Rightarrow> error + 'b) \<Rightarrow> error + 'b" where
  "ebind m f = (case m of Inl e \<Rightarrow> Inl e | Inr x \<Rightarrow> f x)"

text \<open>
  A numpy float: a real number or NaN. NaN is what \<^verbatim>\<open>np.mean\<close>, \<^verbatim>\<open>np.var\<close> and
  \<^verbatim>\<open>np.corrcoef\<close> give on degenerate samples (\<open>0/0\<close>), and arithmetic propagates it.
\<close>

datatype fl = NaN | Fin real

instantiation fl :: "{comm_monoid_add, one, times, minus}"
begin

definition zero_fl :: fl where "zero_fl = Fin 0"

definition one_fl :: fl where "one_fl = Fin 1"

definition plus_fl :: "fl \<Rightarrow> fl \<Rightarrow> fl" where
  "plus_fl a b = (case a of NaN \<Rightarrow> NaN | Fin x \<Rightarrow> (case b of NaN \<Rightarrow> NaN | Fin y \<Rightarrow> Fin (x + y)))"

definition times_fl :: "fl \<Rightarrow> fl \<Rightarrow> fl" where
  "times_fl a b = (case a of NaN \<Rightarrow> NaN | Fin x \<Rightarrow> (case b of NaN \<Rightarrow> NaN | Fin y \<Rightarrow> Fin (x * y)))"

definition minus_fl :: "fl \<Rightarrow> fl \<Rightarrow> fl" where
  "minus_fl a b = (case a of NaN \<Rightarrow> NaN | Fin x \<Rightarrow> (case b of NaN \<Rightarrow> NaN | Fin y \<Rightarrow> Fin (x - y)))"

instance
proof
  fix a b c :: fl
  show "a + b + c = a + (b + c)"
    by (cases a; cases b; cases c) (simp_all add: plus_fl_def)
  show "a + b = b + a"
    by (cases a; cases b) (simp_all add: plus_fl_def)
  show "0 + a = a"
    by (cases a) (simp_all add: plus_fl_def zero_fl_def)
qed

end

text \<open>
  Float comparison \<open><\<close>: false as soon as one side is NaN.
\<close>

definition fl_less :: "fl \<Rightarrow> fl \<Rightarrow> bool" where
  "fl_less a b = (case a of NaN \<Rightarrow> False | Fin x \<Rightarrow> (case b of NaN \<Rightarrow> False | Fin y \<Rightarrow> x < y))"

text \<open>
  \<^verbatim>\<open>np.mean(xs)\<close> and \<^verbatim>\<open>np.var(xs, ddof=0)\<close> of one row of samples: the arithmetic mean
  and the population variance (divisor \<open>M\<close>, not \<open>M - 1\<close>); NaN on an empty row.
\<close>

definition np_mean :: "real list \<Rightarrow> fl" where
  "np_mean xs = (if xs = [] then NaN else Fin (sum_list xs / real (length xs)))"

definition np_var :: "real list \<Rightarrow> fl" where
  "np_var xs =
     (if xs = [] then NaN
      else let m = sum_list xs / real (length xs)
           in Fin (sum_list (map (\<lambda>x. (x - m)\<^sup>2) xs) / real (length xs)))"

text \<open>
  The entry \<open>[0,1]\<close> of \<^verbatim>\<open>np.corrcoef\<close> of two rows: the covariance matrix \<open>c\<close> of
  \<^verbatim>\<open>np.cov\<close> (divisor \<open>M - 1\<close>), then \<open>c[0,1] / sqrt c[0,0] / sqrt c[1,1]\<close>. With fewer than
  two samples, or a row of zero variance, the quotient is \<open>0/0\<close>: NaN.
\<close>

definition np_cov :: "real list \<Rightarrow> real list \<Rightarrow> real" where
  "np_cov xs ys =
     (let mx = sum_list xs / real (length xs); my = sum_list ys / real (length ys)
      in sum_list (map2 (\<lambda>x y. (x - mx) * (y - my)) xs ys) / (real (length xs) - 1))"

definition np_corrcoef :: "real list \<Rightarrow> real list \<Rightarrow> fl" where
  "np_corrcoef xs ys =
     (if length xs \<le> 1 \<or> np_cov xs xs = 0 \<or> np_cov ys ys = 0 then NaN
      else Fin (np_cov xs ys / sqrt (np_cov xs xs) / sqrt (np_cov ys ys)))"

text \<open>
  \<^verbatim>\<open>np.argmin\<close>: the index of the first minimum, where a NaN counts as smaller than every
  number (the first NaN wins); \<open>ValueError\<close> on an empty vector. \<open>np_before a b\<close> says
  that a later entry \<open>a\<close> displaces the current best \<open>b\<close>.
\<close>

definition np_before :: "fl \<Rightarrow> fl \<Rightarrow> bool" where
  "np_before a b = (case b of NaN \<Rightarrow> False | Fin y \<Rightarrow> (case a of NaN \<Rightarrow> True | Fin x \<Rightarrow> x < y))"

fun argmin_from :: "nat \<Rightarrow> fl \<Rightarrow> nat \<Rightarrow> fl list \<Rightarrow> nat" where
  "argmin_from bi bv i [] = bi"
| "argmin_from bi bv i (v # vs) =
     (if np_before v bv then argmin_from i v (Suc i) vs else argmin_from bi bv (Suc i) vs)"

definition np_argmin :: "fl list \<Rightarrow> error + nat" where
  "np_argmin vs = (case vs of [] \<Rightarrow> Inl ValueError | v # rest \<Rightarrow> Inr (argmin_from 0 v 1 rest))"

text \<open>
  Python's \<^verbatim>\<open>max(items, key=lambda x: x[1])\<close> and \<^verbatim>\<open>min(values)\<close>: one pass that keeps
  the first item and replaces it only by a strictly greater (smaller) one; \<open>ValueError\<close>
  on an empty sequence.
\<close>

fun max_from :: "nat \<times> fl \<Rightarrow> (nat \<times> fl) list \<Rightarrow> nat \<times> fl" where
  "max_from best [] = best"
| "max_from best (x # xs) = (if fl_less (snd best) (snd x) then max_from x xs else max_from best xs)"

definition py_max_key :: "(nat \<times> fl) list \<Rightarrow> error + nat \<times> fl" where
  "py_max_key items = (case items of [] \<Rightarrow> Inl ValueError | x # xs \<Rightarrow> Inr (max_from x xs))"

fun min_from :: "fl \<Rightarrow> fl list \<Rightarrow> fl" where
  "min_from best [] = best"
| "min_from best (x # xs) = (if fl_less x best then min_from x xs else min_from best xs)"

definition py_min :: "fl list \<Rightarrow> error + fl" where
  "py_min vs = (case vs of [] \<Rightarrow> Inl ValueError | x # xs \<Rightarrow> Inr (min_from x xs))"

section \<open>The bandit and its sampler\<close>

text \<open>
  \<^verbatim>\<open>BaseCorrelatedBandit\<close>: the number of arms and the abstract \<^verbatim>\<open>_sample_distr\<close>. The random
  generator is an explicit state \<open>'g\<close>; a call returns the drawn numbers in row-major order
  and the next generator state, or \<open>None\<close> when the distribution library raises.
\<close>

record 'g bandit =
  num_arms :: nat
  sample_distr :: "'g \<Rightarrow> int \<Rightarrow> (real list \<times> 'g) option"

text \<open>
  \<^verbatim>\<open>np.reshape(multi_sample, (size, -1))\<close>: \<open>size\<close> rows. numpy raises \<open>ValueError\<close> for a
  negative \<open>size\<close>, for \<open>size = 0\<close> (the free dimension cannot be inferred) and when the
  number of elements is no multiple of \<open>size\<close>.
\<close>

definition np_reshape :: "real list \<Rightarrow> int \<Rightarrow> error + real list list" where
  "np_reshape flat sz =
     (if sz \<le> 0 \<or> length flat mod nat sz \<noteq> 0 then Inl ValueError
      else let c = length flat div nat sz
           in Inr (map (\<lambda>r. take c (drop (r * c) flat)) [0..<nat sz]))"

text \<open>
  \<^verbatim>\<open>sample_arms(arms=[i,j], size=sz)\<close>, the only shape in which the two allocators call it:
  draw, reshape, and select the columns \<open>i\<close> and \<open>j\<close> of every row (\<open>IndexError\<close> for a
  column that is not there). A batch is the list of its rows \<open>(x\<^sub>i, x\<^sub>j)\<close>.
\<close>

type_synonym pair = "nat \<times> nat"
type_synonym batch = "(real \<times> real) list"

definition sample_arms :: "'g bandit \<Rightarrow> 'g \<Rightarrow> pair \<Rightarrow> int \<Rightarrow> error + batch \<times> 'g" where
  "sample_arms bandit g arms sz =
     (case sample_distr bandit g sz of
        None \<Rightarrow> Inl SourceError
      | Some (multi_sample, g') \<Rightarrow>
          ebind (np_reshape multi_sample sz) (\<lambda>samples.
            if list_all (\<lambda>row. fst arms < length row \<and> snd arms < length row) samples
            then Inr (map (\<lambda>row. (row ! fst arms, row ! snd arms)) samples, g')
            else Inl IndexError))"

text \<open>
  \<^verbatim>\<open>GaussianBandit.mse\<close>, on the covariance matrix held by the distribution:
  \<^verbatim>\<open>xvars = np.diagonal(cov)\<close>,
  \<^verbatim>\<open>xcorr = cov / np.sqrt(xvars) / np.sqrt(np.reshape(xvars, (-1,1)))\<close> (broadcasting divides
  column \<open>j\<close> by \<open>sqrt xvars[j]\<close>, then row \<open>i\<close> by \<open>sqrt xvars[i]\<close>), and
  \<^verbatim>\<open>np.sum(xvars*(1-xcorr*xcorr), axis=1)\<close>. The constructor of the distribution accepts
  only a symmetric positive definite matrix, so the variances are positive and no
  division or square root leaves the real numbers.
\<close>

definition GaussianBandit_mse :: "real list list \<Rightarrow> real list" where
  "GaussianBandit_mse cov =
     (let xvars = map (\<lambda>i. cov ! i ! i) [0..<length cov];
          xcorr = map2 (\<lambda>row vi. map2 (\<lambda>c vj. c / sqrt vj / sqrt vi) row xvars) cov xvars
      in map (\<lambda>row. sum_list (map2 (\<lambda>v c. v * (1 - c * c)) xvars row)) xcorr)"

section \<open>Sample statistics and the MSE estimator\<close>

text \<open>
  A dict is an association list in insertion order: assigning to a present key replaces
  its value in place, assigning to a new key appends.
\<close>

fun dict_set :: "'k \<Rightarrow> 'v \<Rightarrow> ('k \<times> 'v) list \<Rightarrow> ('k \<times> 'v) list" where
  "dict_set k v [] = [(k, v)]"
| "dict_set k v ((k', v') # d) = (if k = k' then (k, v) # d else (k', v') # dict_set k v d)"

type_synonym matrix = "fl list list"

definition np_zeros2 :: "nat \<Rightarrow> matrix" where
  "np_zeros2 n = replicate n (replicate n 0)"

text \<open>\<^verbatim>\<open>m[i,j] = v\<close>, with numpy's \<open>IndexError\<close> outside the matrix.\<close>

definition mat_set :: "matrix \<Rightarrow> nat \<Rightarrow> nat \<Rightarrow> fl \<Rightarrow> error + matrix" where
  "mat_set m i j v =
     (if i < length m \<and> j < length (m ! i) then Inr (m[i := (m ! i)[j := v]]) else Inl IndexError)"

text \<open>
  The loop of \<^verbatim>\<open>sample_stats\<close> over \<^verbatim>\<open>arm_sample_dict.items()\<close>. The transposed batch has the
  samples of arm \<open>i\<close> as row 0 and those of arm \<open>j\<close> as row 1.
\<close>

fun sample_stats_loop ::
  "(pair \<times> batch) list \<Rightarrow> matrix \<times> matrix \<times> matrix \<Rightarrow> error + matrix \<times> matrix \<times> matrix" where
  "sample_stats_loop [] acc = Inr acc"
| "sample_stats_loop ((inds, xs) # rest) (emeans, evars, ecorrs) =
     (let i = fst inds; j = snd inds; r0 = map fst xs; r1 = map snd xs
      in ebind (mat_set emeans i j (np_mean r0)) (\<lambda>emeans.
         ebind (mat_set emeans j i (np_mean r1)) (\<lambda>emeans.
         ebind (mat_set evars i j (np_var r0)) (\<lambda>evars.
         ebind (mat_set evars j i (np_var r1)) (\<lambda>evars.
         ebind (mat_set ecorrs i j (np_corrcoef r0 r1)) (\<lambda>ecorrs.
         ebind (mat_set ecorrs j i (np_corrcoef r0 r1)) (\<lambda>ecorrs.
         sample_stats_loop rest (emeans, evars, ecorrs))))))))"

definition sample_stats ::
  "(pair \<times> batch) list \<Rightarrow> nat \<Rightarrow> error + matrix \<times> matrix \<times> matrix" where
  "sample_stats arm_sample_dict n =
     sample_stats_loop arm_sample_dict (np_zeros2 n, np_zeros2 n, np_zeros2 n)"

text \<open>
  \<^verbatim>\<open>np.sum(np.transpose(evars)*(1-ecorrs*ecorrs), axis=1)\<close>, the last definition of \<^verbatim>\<open>mse\<close>
  in its cell (the one in force).
\<close>

definition np_transpose :: "matrix \<Rightarrow> matrix" where
  "np_transpose m = map (\<lambda>c. map (\<lambda>row. row ! c) m) [0..<length m]"

definition mse :: "(pair \<times> batch) list \<Rightarrow> nat \<Rightarrow> error + fl list" where
  "mse arms_dict n =
     ebind (sample_stats arms_dict n) (\<lambda>(emeans, evars, ecorrs).
       Inr (map sum_list
              (map2 (map2 (\<lambda>v c. v * (1 - c * c))) (np_transpose evars) ecorrs)))"

section \<open>The two allocators\<close>

text \<open>The pairs \<open>(i, j)\<close>, \<open>i < j\<close>, in the order of the two nested \<^verbatim>\<open>range\<close> loops.\<close>

definition all_pairs :: "nat \<Rightarrow> pair list" where
  "all_pairs K = concat (map (\<lambda>i. map (\<lambda>j. (i, j)) [i + 1..<K]) [0..<K])"

subsection \<open>\<^verbatim>\<open>uniform_sampling\<close>\<close>

text \<open>\<^verbatim>\<open>n = (2*trials) // (bandit.num_arms*(bandit.num_arms-1))\<close>: integer floor division.\<close>

definition uniform_n :: "nat \<Rightarrow> int \<Rightarrow> error + int" where
  "uniform_n K trials =
     (if int K * (int K - 1) = 0 then Inl ZeroDivisionError
      else Inr ((2 * trials) div (int K * (int K - 1))))"

fun uniform_loop ::
  "'g bandit \<Rightarrow> int \<Rightarrow> pair list \<Rightarrow> (pair \<times> batch) list \<Rightarrow> 'g \<Rightarrow> error + (pair \<times> batch) list \<times> 'g"
  where
  "uniform_loop bandit n [] arms_dict g = Inr (arms_dict, g)"
| "uniform_loop bandit n (p # ps) arms_dict g =
     ebind (sample_arms bandit g p n) (\<lambda>(xs, g').
       uniform_loop bandit n ps (dict_set p xs arms_dict) g')"

definition uniform_dict :: "'g bandit \<Rightarrow> 'g \<Rightarrow> int \<Rightarrow> error + (pair \<times> batch) list \<times> 'g" where
  "uniform_dict bandit g trials =
     ebind (uniform_n (num_arms bandit) trials) (\<lambda>n.
       uniform_loop bandit n (all_pairs (num_arms bandit)) [] g)"

definition uniform_sampling :: "'g bandit \<Rightarrow> 'g \<Rightarrow> int \<Rightarrow> error + nat \<times> fl list" where
  "uniform_sampling bandit g trials =
     ebind (uniform_dict bandit g trials) (\<lambda>(arms_dict, g').
     ebind (mse arms_dict (num_arms bandit)) (\<lambda>mse_vals.
     ebind (np_argmin mse_vals) (\<lambda>arm. Inr (arm, mse_vals))))"

subsection \<open>\<^verbatim>\<open>successive_rejects\<close>\<close>

text \<open>
  The local variables of \<^verbatim>\<open>successive_rejects\<close> that live across phases. The sets \<open>B\<close> and
  \<open>A\<close> are lists without duplicates, whose order stands for the iteration order of the
  Python sets; \<open>mse_vals\<close> and \<open>min_mse\<close> are unbound (\<open>None\<close>) before the first phase.
\<close>

record 'g sr_state =
  sr_B :: "nat list"
  sr_A :: "pair list"
  sr_mse_ests :: "fl list"
  sr_arms_dict :: "(pair \<times> batch) list"
  sr_mse_vals :: "fl list option"
  sr_min_mse :: "fl option"
  sr_gen :: 'g

text \<open>
  \<^verbatim>\<open>ts = np.subtract(ns[1:], ns[:-1])\<close>: differences of integral floats, which are exact.
\<close>

definition sr_ts :: "float_arith \<Rightarrow> int \<Rightarrow> nat \<Rightarrow> int list" where
  "sr_ts fp trials K = (let ns = sr_ns fp trials K in map2 (\<lambda>a b. a - b) (tl ns) (butlast ns))"

text \<open>
  The inner loop \<^verbatim>\<open>for pair in A\<close>: it leaves at once when the increment is 0, and
  otherwise stores the new batch or appends it to the batch already held for the pair.
\<close>

fun sr_sample_loop ::
  "'g bandit \<Rightarrow> int \<Rightarrow> pair list \<Rightarrow> (pair \<times> batch) list \<Rightarrow> 'g \<Rightarrow> error + (pair \<times> batch) list \<times> 'g"
  where
  "sr_sample_loop bandit t [] arms_dict g = Inr (arms_dict, g)"
| "sr_sample_loop bandit t (p # ps) arms_dict g =
     (if t = 0 then Inr (arms_dict, g)
      else ebind (sample_arms bandit g p t) (\<lambda>(xs, g').
             sr_sample_loop bandit t ps
               (case map_of arms_dict p of
                  None \<Rightarrow> dict_set p xs arms_dict
                | Some old \<Rightarrow> dict_set p (old @ xs) arms_dict) g'))"

text \<open>\<^verbatim>\<open>((i,v) for (i,v) in enumerate(mse_vals) if i in B)\<close>: in index order.\<close>

definition active_items :: "fl list \<Rightarrow> nat list \<Rightarrow> (nat \<times> fl) list" where
  "active_items mse_vals B = filter (\<lambda>(i, v). i \<in> set B) (zip [0..<length mse_vals] mse_vals)"

text \<open>\<^verbatim>\<open>mse_ests[reject] = val\<close>.\<close>

definition vec_set :: "fl list \<Rightarrow> nat \<Rightarrow> fl \<Rightarrow> error + fl list" where
  "vec_set v i x = (if i < length v then Inr (v[i := x]) else Inl IndexError)"

text \<open>One iteration of \<^verbatim>\<open>for k,t in enumerate(ts)\<close>.\<close>

definition sr_phase :: "'g bandit \<Rightarrow> int \<Rightarrow> 'g sr_state \<Rightarrow> error + 'g sr_state" where
  "sr_phase bandit t st =
     ebind (sr_sample_loop bandit t (sr_A st) (sr_arms_dict st) (sr_gen st)) (\<lambda>(arms_dict, g).
     ebind (mse arms_dict (num_arms bandit)) (\<lambda>mse_vals.
     ebind (py_max_key (active_items mse_vals (sr_B st))) (\<lambda>(reject, val).
     ebind (vec_set (sr_mse_ests st) reject val) (\<lambda>mse_ests.
     ebind (py_min (map snd (active_items mse_vals (sr_B st)))) (\<lambda>min_mse.
       let B = removeAll reject (sr_B st);
           keep = (\<lambda>p. fst p \<in> set B \<or> snd p \<in> set B)
       in Inr \<lparr>sr_B = B,
               sr_A = filter keep (sr_A st),
               sr_mse_ests = mse_ests,
               sr_arms_dict = filter (\<lambda>(p, v). keep p) arms_dict,
               sr_mse_vals = Some mse_vals,
               sr_min_mse = Some min_mse,
               sr_gen = g\<rparr>)))))"

fun sr_loop :: "'g bandit \<Rightarrow> int list \<Rightarrow> 'g sr_state \<Rightarrow> error + 'g sr_state" where
  "sr_loop bandit [] st = Inr st"
| "sr_loop bandit (t # ts) st = ebind (sr_phase bandit t st) (sr_loop bandit ts)"

definition sr_init :: "'g bandit \<Rightarrow> 'g \<Rightarrow> 'g sr_state" where
  "sr_init bandit g =
     \<lparr>sr_B = [0..<num_arms bandit],
      sr_A = all_pairs (num_arms bandit),
      sr_mse_ests = replicate (num_arms bandit) 0,
      sr_arms_dict = [],
      sr_mse_vals = None,
      sr_min_mse = None,
      sr_gen = g\<rparr>"

text \<open>
  After the loop: \<^verbatim>\<open>arm = B.pop()\<close> (\<open>KeyError\<close> on the empty set), then
  \<^verbatim>\<open>mse_ests[arm] = min_mse\<close> (\<open>UnboundLocalError\<close> if no phase ran).
\<close>

definition sr_finish :: "'g sr_state \<Rightarrow> error + nat \<times> fl list" where
  "sr_finish st =
     (case sr_B st of
        [] \<Rightarrow> Inl KeyError
      | arm # _ \<Rightarrow>
          (case sr_min_mse st of
             None \<Rightarrow> Inl UnboundLocalError
           | Some min_mse \<Rightarrow>
               ebind (vec_set (sr_mse_ests st) arm min_mse) (\<lambda>mse_ests. Inr (arm, mse_ests))))"

definition successive_rejects ::
  "float_arith \<Rightarrow> 'g bandit \<Rightarrow> 'g \<Rightarrow> int \<Rightarrow> error + nat \<times> fl list" where
  "successive_rejects fp bandit g trials =
     ebind (sr_loop bandit (sr_ts fp trials (num_arms bandit)) (sr_init bandit g)) sr_finish"


text \<open>Float comparison \<open>\<le>\<close>, false as soon as one side is NaN.\<close>

definition fl_le :: "fl \<Rightarrow> fl \<Rightarrow> bool" where
  "fl_le a b = (case a of NaN \<Rightarrow> False | Fin x \<Rightarrow> (case b of NaN \<Rightarrow> False | Fin y \<Rightarrow> x \<le> y))"

section \<open>The estimator as the specification words it\<close>

text \<open>
  The contribution of one entry of the pair map to arm \<open>i\<close>: the population variance of
  the other arm's samples times one minus the squared Pearson coefficient of the batch.
  For a key \<open>(a, b)\<close> the first column of the batch holds the samples of arm \<open>a\<close>.
\<close>

definition spec_pair_term :: "nat \<Rightarrow> pair \<times> batch \<Rightarrow> fl" where
  "spec_pair_term i e =
     (let xs = snd e; rho = np_corrcoef (map fst xs) (map snd xs)
      in (if fst (fst e) = i then np_var (map snd xs) else np_var (map fst xs)) * (1 - rho * rho))"

definition spec_estimate :: "(pair \<times> batch) list \<Rightarrow> nat \<Rightarrow> fl list" where
  "spec_estimate pair_stats_map n =
     map (\<lambda>i. sum_list (map (spec_pair_term i)
                 (filter (\<lambda>e. fst (fst e) = i \<or> snd (fst e) = i) pair_stats_map))) [0..<n]"

section \<open>Auxiliary notions\<close>

text \<open>A square matrix of dimension \<open>n\<close>.\<close>

definition is_mat :: "nat \<Rightarrow> matrix \<Rightarrow> bool" where
  "is_mat n m = (length m = n \<and> list_all (\<lambda>row. length row = n) m)"

text \<open>
  The cell \<open>[p,q]\<close> of a statistics matrix after the loop of \<^verbatim>\<open>sample_stats\<close>: written
  from the batch of the key \<open>(p,q)\<close> (first target of the assignment), or from that of
  the key \<open>(q,p)\<close> (second target), or left as it was.
\<close>

definition stat_cell ::
  "(pair \<times> batch) list \<Rightarrow> (batch \<Rightarrow> fl) \<Rightarrow> (batch \<Rightarrow> fl) \<Rightarrow> fl \<Rightarrow> nat \<Rightarrow> nat \<Rightarrow> fl" where
  "stat_cell d f0 f1 dflt p q =
     (case map_of d (p, q) of
        Some xs \<Rightarrow> f0 xs
      | None \<Rightarrow> (case map_of d (q, p) of Some xs \<Rightarrow> f1 xs | None \<Rightarrow> dflt))"

text \<open>The keys of a pair map are pairs \<open>(a, b)\<close> of arms with \<open>a < b < n\<close>, each at most once.\<close>

definition pair_keys :: "nat \<Rightarrow> (pair \<times> batch) list \<Rightarrow> bool" where
  "pair_keys n d = (distinct (map fst d) \<and> list_all (\<lambda>e. fst (fst e) < snd (fst e) \<and> snd (fst e) < n) d)"

text \<open>
  A source is well formed when every request for a positive number of joint draws
  returns one number per arm and draw.
\<close>

definition well_formed_source :: "'g bandit \<Rightarrow> bool" where
  "well_formed_source bandit =
     (\<forall>g sz. 0 < sz \<longrightarrow>
        (\<exists>flat g'. sample_distr bandit g sz = Some (flat, g')
                    \<and> length flat = nat sz * num_arms bandit))"

text \<open>The state of \<^verbatim>\<open>successive_rejects\<close> after its first \<open>k\<close> phases.\<close>

definition sr_after ::
  "float_arith \<Rightarrow> 'g bandit \<Rightarrow> 'g \<Rightarrow> int \<Rightarrow> nat \<Rightarrow> error + 'g sr_state" where
  "sr_after fp bandit g trials k =
     sr_loop bandit (take k (sr_ts fp trials (num_arms bandit))) (sr_init bandit g)"

text \<open>What every phase keeps: the shapes of the active sets, of the output vector and of the dict.\<close>

definition sr_inv :: "nat \<Rightarrow> 'g sr_state \<Rightarrow> bool" where
  "sr_inv n st =
     (distinct (sr_B st) \<and> list_all (\<lambda>i. i < n) (sr_B st) \<and> length (sr_mse_ests st) = n
      \<and> pair_keys n (sr_arms_dict st)
      \<and> list_all (\<lambda>p. fst p < snd p \<and> snd p < n) (sr_A st))"

text \<open>
  A deterministic stand-in for the random source, for concrete runs: the generator state
  is a counter \<open>g\<close>, the \<open>i\<close>-th number drawn is \<open>(g + i)\<^sup>2 mod 7\<close>, and a negative size makes
  the library raise.
\<close>

definition demo_bandit :: "nat \<Rightarrow> nat bandit" where
  "demo_bandit K =
     \<lparr>num_arms = K,
      sample_distr = (\<lambda>g sz. if sz < 0 then None
         else Some (map (\<lambda>i. real ((g + i) * (g + i) mod 7)) [0..<nat sz * K], g + nat sz * K))\<rparr>"

text \<open>
  The dividend and the divisors of \<^verbatim>\<open>sr_trials\<close>: \<open>sr_x\<close> is the float \<^verbatim>\<open>n-K2\<close>, and
  \<open>sr_div fp K k\<close> is the float \<^verbatim>\<open>ck*(K+1-k)\<close> of the list position \<open>k\<close>, that is of phase
  \<open>k + 1\<close>.
\<close>

definition sr_x :: "float_arith \<Rightarrow> int \<Rightarrow> nat \<Rightarrow> real" where
  "sr_x fp n K = rnd fp (rnd fp (real_of_int n) - rnd fp (sr_K2 K))"

definition sr_div :: "float_arith \<Rightarrow> nat \<Rightarrow> nat \<Rightarrow> real" where
  "sr_div fp K k = rnd fp (sr_ck fp K * rnd fp (real K - real k))"

section \<open>Properties of the schedule\<close>

lemma float_arith_props:
  "mono (rnd fp)" "rnd fp 0 = 0" "rnd fp (1 / 2) = 1 / 2" "rnd fp 1 = 1" "fsum fp [] = 0"
  "list_all (\<lambda>x. 0 \<le> x) xs \<Longrightarrow> 0 \<le> fsum fp xs"
  using Rep_float_arith [of fp] by (auto simp: rnd_def fsum_def split_beta)

lemma rnd_mono: "x \<le> y \<Longrightarrow> rnd fp x \<le> rnd fp y"
  using float_arith_props(1) [of fp] by (simp add: mono_def)

lemma rnd_nonneg: "0 \<le> x \<Longrightarrow> 0 \<le> rnd fp x"
  using rnd_mono [of 0 x fp] by (simp add: float_arith_props)

lemma rnd_nonpos: "x \<le> 0 \<Longrightarrow> rnd fp x \<le> 0"
  using rnd_mono [of x 0 fp] by (simp add: float_arith_props)

lemma rnd_ge_half: "1 / 2 \<le> x \<Longrightarrow> 1 / 2 \<le> rnd fp x"
  using rnd_mono [of "1 / 2" x fp] by (simp add: float_arith_props)

lemma rnd_ge_one: "1 \<le> x \<Longrightarrow> 1 \<le> rnd fp x"
  using rnd_mono [of 1 x fp] by (simp add: float_arith_props)

lemma Rep_exact_arith: "Rep_float_arith exact_arith = (\<lambda>x. x, sum_list)"
  unfolding exact_arith_def
  by (rule Abs_float_arith_inverse) (simp add: mono_def sum_list_nonneg list_all_iff)

lemma rnd_exact [simp]: "rnd exact_arith x = x"
  by (simp add: rnd_def Rep_exact_arith)

lemma fsum_exact [simp]: "fsum exact_arith xs = sum_list xs"
  by (simp add: fsum_def Rep_exact_arith)

lemma sum_list_upt_sum: "sum_list (map f [a..<b]) = (\<Sum>j = a..<b. f j)"
  by (simp add: interv_sum_list_conv_sum_set_nat)


lemma sr_ck_ge: "2 \<le> K \<Longrightarrow> 1 / 2 \<le> sr_ck fp K"
proof -
  assume K: "2 \<le> K"
  have "list_all (\<lambda>x. 0 \<le> x) (map (\<lambda>j. rnd fp (real j / (real K - real j))) [1..<K - 1])"
    by (auto simp: list_all_iff intro!: rnd_nonneg)
  then have "0 \<le> fsum fp (map (\<lambda>j. rnd fp (real j / (real K - real j))) [1..<K - 1])"
    by (rule float_arith_props)
  moreover have "1 / 2 \<le> rnd fp ((real K - 1) / 2)" using K by (intro rnd_ge_half) simp
  ultimately show ?thesis unfolding sr_ck_def by (intro rnd_ge_half) linarith
qed

lemma sr_div_ge:
  assumes "k < K - 1"
  shows "1 / 2 \<le> sr_div fp K k"
proof -
  have K: "2 \<le> K" using assms by simp
  have "1 \<le> real K - real k" using assms by linarith
  then have "1 \<le> rnd fp (real K - real k)" by (rule rnd_ge_one)
  moreover have "1 / 2 \<le> sr_ck fp K" using K by (rule sr_ck_ge)
  ultimately have "1 / 2 * 1 \<le> sr_ck fp K * rnd fp (real K - real k)"
    by (intro mult_mono) simp_all
  then show ?thesis unfolding sr_div_def by (intro rnd_ge_half) simp
qed


lemma neg_floor_neg_divide: "- \<lfloor>(- x) / y\<rfloor> = \<lceil>x / (y::real)\<rceil>"
  by (simp add: ceiling_def)




section \<open>Worst-arm selection\<close>

lemma fl_less_Fin [simp]: "fl_less (Fin x) (Fin y) = (x < y)"
  by (simp add: fl_less_def)

lemma fl_le_Fin [simp]: "fl_le (Fin x) (Fin y) = (x \<le> y)"
  by (simp add: fl_le_def)

lemma fl_le_FinD: "fl_le a b \<Longrightarrow> \<exists>x y. a = Fin x \<and> b = Fin y \<and> x \<le> y"
  by (cases a; cases b) (simp_all add: fl_le_def)

lemma max_from_split:
  assumes "\<forall>x \<in> set (best # xs). snd x \<noteq> NaN"
  shows "\<exists>ys zs. best # xs = ys @ max_from best xs # zs
           \<and> (\<forall>y \<in> set ys. fl_less (snd y) (snd (max_from best xs)))
           \<and> (\<forall>z \<in> set zs. fl_le (snd z) (snd (max_from best xs)))"
  using assms
proof (induction xs arbitrary: best)
  case Nil
  have "[best] = [] @ max_from best [] # []" by simp
  then show ?case by (metis empty_iff list.set(1))
next
  case (Cons x xs)
  obtain bv where bv: "snd best = Fin bv" using Cons.prems by (cases "snd best") auto
  obtain xv where xv: "snd x = Fin xv" using Cons.prems by (cases "snd x") auto
  show ?case
  proof (cases "fl_less (snd best) (snd x)")
    case True
    have "\<forall>y \<in> set (x # xs). snd y \<noteq> NaN" using Cons.prems by simp
    from Cons.IH [OF this] obtain ys zs where
      s: "x # xs = ys @ max_from x xs # zs"
      and lo: "\<forall>y \<in> set ys. fl_less (snd y) (snd (max_from x xs))"
      and hi: "\<forall>z \<in> set zs. fl_le (snd z) (snd (max_from x xs))" by blast
    have "fl_less (snd x) (snd (max_from x xs)) \<or> x = max_from x xs"
      using s lo by (cases ys) auto
    then have "fl_less (snd best) (snd (max_from x xs))"
      using True bv xv by (cases "snd (max_from x xs)") (auto simp: fl_less_def)
    then have "best # x # xs = (best # ys) @ max_from x xs # zs
       \<and> (\<forall>y \<in> set (best # ys). fl_less (snd y) (snd (max_from x xs)))"
      using s lo by simp
    then show ?thesis using True hi by (metis max_from.simps(2))
  next
    case False
    have "\<forall>y \<in> set (best # xs). snd y \<noteq> NaN" using Cons.prems by simp
    from Cons.IH [OF this] obtain ys zs where
      s: "best # xs = ys @ max_from best xs # zs"
      and lo: "\<forall>y \<in> set ys. fl_less (snd y) (snd (max_from best xs))"
      and hi: "\<forall>z \<in> set zs. fl_le (snd z) (snd (max_from best xs))" by blast
    have le: "xv \<le> bv" using False bv xv by simp
    show ?thesis
    proof (cases ys)
      case Nil
      have "best # xs = max_from best xs # zs" using s unfolding Nil by (simp only: append_Nil)
      then have "max_from best xs = best" "zs = xs" by (metis list.inject)+
      then have "best # x # xs = [] @ max_from best xs # (x # zs)
         \<and> (\<forall>z \<in> set (x # zs). fl_le (snd z) (snd (max_from best xs)))"
        using hi le bv xv by simp
      then show ?thesis using False by (metis max_from.simps(2) empty_iff list.set(1))
    next
      case (Cons y ys')
      have "best # xs = y # (ys' @ max_from best xs # zs)"
        using s unfolding Cons by (simp only: append_Cons)
      then have y: "y = best" and xs: "xs = ys' @ max_from best xs # zs"
        by (metis list.inject)+
      have "fl_less (snd best) (snd (max_from best xs))" using lo Cons y by simp
      then have "fl_less (snd x) (snd (max_from best xs))"
        using le bv xv by (cases "snd (max_from best xs)") (auto simp: fl_less_def)
      then have "best # x # xs = (best # x # ys') @ max_from best xs # zs
         \<and> (\<forall>y \<in> set (best # x # ys'). fl_less (snd y) (snd (max_from best xs)))"
        using xs lo Cons y by simp
      then show ?thesis using False hi by (metis max_from.simps(2))
    qed
  qed
qed

lemma active_items_fst: "map fst (active_items vals B) = filter (\<lambda>i. i \<in> set B) [0..<length vals]"
proof -
  have "map fst (filter (\<lambda>(i, v). i \<in> set B) (zip is vals)) = filter (\<lambda>i. i \<in> set B) is"
    if "length is = length vals" for "is" :: "nat list"
    using that by (induction "is" vals rule: list_induct2) auto
  then show ?thesis by (simp add: active_items_def)
qed

lemma set_active_items:
  "set (active_items vals B) = {(i, vals ! i) | i. i < length vals \<and> i \<in> set B}"
proof -
  have "set (zip [0..<length vals] vals) = {(i, vals ! i) | i. i < length vals}"
    by (auto simp: set_zip) (metis add_0 nth_upt)
  then show ?thesis by (auto simp: active_items_def)
qed

lemma active_items_sorted: "sorted_wrt (<) (map fst (active_items vals B))"
  unfolding active_items_fst by (rule sorted_wrt_filter) simp


lemma active_items_cong: "set B' = set B \<Longrightarrow> active_items vals B' = active_items vals B"
  by (simp add: active_items_def)

lemma sorted_wrt_fst_split:
  assumes "sorted_wrt (<) (map fst (ys @ r # zs))"
  shows "(\<forall>y \<in> set ys. fst y < fst r) \<and> (\<forall>z \<in> set zs. fst r < fst z)"
  using assms by (auto simp: sorted_wrt_append)

lemma py_max_key_lowest:
  assumes iB: "i \<in> set B" and i: "i < length mse_vals"
    and mx: "\<forall>j \<in> set B. j < length mse_vals \<longrightarrow> fl_le (mse_vals ! j) (mse_vals ! i)"
  shows "\<exists>reject. py_max_key (active_items mse_vals B) = Inr (reject, mse_vals ! i)
           \<and> reject \<in> set B \<and> reject \<le> i \<and> mse_vals ! reject = mse_vals ! i
           \<and> (\<forall>j \<in> set B. j < reject \<longrightarrow> mse_vals ! j \<noteq> mse_vals ! i)
           \<and> (\<forall>B'. set B' = set B \<longrightarrow>
                 py_max_key (active_items mse_vals B') = Inr (reject, mse_vals ! i))"
proof -
  let ?items = "active_items mse_vals B"
  have mem: "(i, mse_vals ! i) \<in> set ?items" using iB i by (auto simp: set_active_items)
  then obtain x xs where items: "?items = x # xs" by (cases ?items) auto
  define r where "r = max_from x xs"
  have fin: "\<forall>y \<in> set (x # xs). snd y \<noteq> NaN"
  proof
    fix y assume "y \<in> set (x # xs)"
    then have "y \<in> set ?items" by (simp add: items)
    then obtain j where "y = (j, mse_vals ! j)" "j < length mse_vals" "j \<in> set B"
      by (auto simp: set_active_items)
    then show "snd y \<noteq> NaN" using mx fl_le_FinD by fastforce
  qed
  from max_from_split [OF fin] obtain ys zs where
    s: "x # xs = ys @ r # zs"
    and lo: "\<forall>y \<in> set ys. fl_less (snd y) (snd r)"
    and hi: "\<forall>z \<in> set zs. fl_le (snd z) (snd r)"
    unfolding r_def by blast
  have "sorted_wrt (<) (map fst (ys @ r # zs))"
    using active_items_sorted [of mse_vals B] by (simp only: items s)
  from sorted_wrt_fst_split [OF this]
  have before: "\<forall>y \<in> set ys. fst y < fst r" and after: "\<forall>z \<in> set zs. fst r < fst z" by auto
  have "r \<in> set ?items" by (simp add: items s)
  then have r: "snd r = mse_vals ! fst r" "fst r < length mse_vals" "fst r \<in> set B"
    by (auto simp: set_active_items)
  have r_le: "fl_le (snd r) (mse_vals ! i)" using mx r by simp
  have "(i, mse_vals ! i) \<in> set ys \<union> {r} \<union> set zs" using mem by (simp add: items s)
  then consider "(i, mse_vals ! i) \<in> set ys" | "(i, mse_vals ! i) = r" | "(i, mse_vals ! i) \<in> set zs"
    by blast
  then have eq: "snd r = mse_vals ! i \<and> fst r \<le> i"
  proof cases
    case 1
    then have "fl_less (mse_vals ! i) (snd r)" using lo by fastforce
    with r_le show ?thesis
      by (cases "snd r"; cases "mse_vals ! i") (auto simp: fl_less_def fl_le_def)
  next
    case 2
    then show ?thesis by auto
  next
    case 3
    then have "fl_le (mse_vals ! i) (snd r)" "fst r < i" using hi after by fastforce+
    with r_le show ?thesis
      by (cases "snd r"; cases "mse_vals ! i") (auto simp: fl_le_def)
  qed
  have low: "mse_vals ! j \<noteq> mse_vals ! i" if "j \<in> set B" "j < fst r" for j
  proof -
    have jl: "j < length mse_vals" using that r by simp
    then have "(j, mse_vals ! j) \<in> set ?items" using that by (auto simp: set_active_items)
    then have "(j, mse_vals ! j) \<in> set ys \<union> {r} \<union> set zs" by (simp add: items s)
    moreover have "(j, mse_vals ! j) \<noteq> r" using that by auto
    moreover have "(j, mse_vals ! j) \<notin> set zs" using after that by fastforce
    ultimately have "fl_less (mse_vals ! j) (snd r)" using lo by fastforce
    then show ?thesis using eq
      by (cases "mse_vals ! j"; cases "mse_vals ! i") (auto simp: fl_less_def)
  qed
  have res: "py_max_key ?items = Inr (fst r, mse_vals ! i)"
    using eq by (simp add: py_max_key_def items r_def [symmetric] prod_eq_iff)
  have "py_max_key (active_items mse_vals B') = Inr (fst r, mse_vals ! i)" if "set B' = set B" for B'
    using res active_items_cong [OF that, of mse_vals] by simp
  with res r eq low show ?thesis by (intro exI [of _ "fst r"]) auto
qed


section \<open>The analytic MSE\<close>

lemma sum_list_map2_nth:
  "length xs = length ys \<Longrightarrow>
   sum_list (map2 f xs ys) = (\<Sum>k = 0..<length xs. f (xs ! k) (ys ! k))"
proof -
  assume l: "length xs = length ys"
  have "map2 f xs ys = map (\<lambda>k. f (xs ! k) (ys ! k)) [0..<length xs]"
    using l by (auto intro!: nth_equalityI)
  then show ?thesis by (simp add: sum_list_upt_sum)
qed

text \<open>
  C2. For a \<open>K \<times> K\<close> covariance matrix that is symmetric with positive variances on the
  diagonal, the analytic MSE is the vector of length \<open>K\<close> whose \<open>i\<close>-th entry is the sum
  over the arms \<open>p \<noteq> i\<close> of \<open>Var p * (1 - \<rho>(p,i)\<^sup>2)\<close>, where
  \<open>\<rho>(p,i) = cov(p,i) / sqrt (Var p * Var i)\<close>. (The code sums over all \<open>p\<close>; the term
  for \<open>p = i\<close> vanishes because \<open>\<rho>(i,i) = 1\<close>.)
\<close>

theorem GaussianBandit_mse_formula:
  assumes len: "length cov = K"
    and sq: "\<forall>i<K. length (cov ! i) = K"
    and sym: "\<forall>i<K. \<forall>p<K. cov ! i ! p = cov ! p ! i"
    and pos: "\<forall>i<K. 0 < cov ! i ! i"
  shows "GaussianBandit_mse cov =
     map (\<lambda>i. \<Sum>p \<in> {0..<K} - {i}.
                 cov ! p ! p * (1 - (cov ! p ! i / sqrt (cov ! p ! p * cov ! i ! i))\<^sup>2)) [0..<K]"
proof (rule nth_equalityI)
  show "length (GaussianBandit_mse cov) = length (map (\<lambda>i. \<Sum>p \<in> {0..<K} - {i}.
                 cov ! p ! p * (1 - (cov ! p ! i / sqrt (cov ! p ! p * cov ! i ! i))\<^sup>2)) [0..<K])"
    using len by (simp add: GaussianBandit_mse_def Let_def)
next
  fix i assume "i < length (GaussianBandit_mse cov)"
  then have i: "i < K" using len by (simp add: GaussianBandit_mse_def Let_def)
  let ?v = "\<lambda>p. cov ! p ! p"
  let ?t = "\<lambda>p. ?v p * (1 - (cov ! p ! i / sqrt (?v p * ?v i))\<^sup>2)"
  define xvars where "xvars = map ?v [0..<K]"
  have row_len: "length (cov ! i) = K" using sq i by simp
  have "GaussianBandit_mse cov ! i
      = sum_list (map2 (\<lambda>v c. v * (1 - c * c)) xvars
          (map2 (\<lambda>c vj. c / sqrt vj / sqrt (?v i)) (cov ! i) xvars))"
    using i len by (simp add: GaussianBandit_mse_def xvars_def Let_def)
  also have "\<dots> = (\<Sum>p = 0..<K. ?v p * (1 - (cov ! i ! p / sqrt (?v p) / sqrt (?v i))
                                          * (cov ! i ! p / sqrt (?v p) / sqrt (?v i))))"
    using row_len by (simp add: sum_list_map2_nth xvars_def)
  also have "\<dots> = (\<Sum>p = 0..<K. ?t p)"
  proof (rule sum.cong [OF refl])
    fix p assume "p \<in> {0..<K}"
    then have "cov ! i ! p = cov ! p ! i" using sym i by simp
    then show "?v p * (1 - (cov ! i ! p / sqrt (?v p) / sqrt (?v i))
                    * (cov ! i ! p / sqrt (?v p) / sqrt (?v i))) = ?t p"
      by (simp add: power2_eq_square real_sqrt_mult)
  qed
  also have "\<dots> = ?t i + (\<Sum>p \<in> {0..<K} - {i}. ?t p)"
    using i by (intro sum.remove) auto
  also have "?t i = 0"
  proof -
    have "0 < ?v i" using pos i by simp
    then have "?v i / sqrt (?v i * ?v i) = 1" by simp
    then show ?thesis by simp
  qed
  finally show "GaussianBandit_mse cov ! i = map (\<lambda>i. \<Sum>p \<in> {0..<K} - {i}.
                 cov ! p ! p * (1 - (cov ! p ! i / sqrt (cov ! p ! p * cov ! i ! i))\<^sup>2)) [0..<K] ! i"
    using i by simp
qed

theorem GaussianBandit_mse_formula_witness:
  "GaussianBandit_mse [[4, 3], [3, 9]] = [27 / 4, 3]"
proof -
  let ?c = "[[4, 3], [3, 9 :: real]]"
  have 1: "\<forall>i<2. length (?c ! i) = 2" by (simp add: less_Suc_eq numeral_2_eq_2)
  have 2: "\<forall>i<2. \<forall>p<2. ?c ! i ! p = ?c ! p ! i" by (auto simp: less_Suc_eq numeral_2_eq_2)
  have 3: "\<forall>i<2. 0 < ?c ! i ! i" by (simp add: less_Suc_eq numeral_2_eq_2)
  have "sqrt 36 = 6" by (rule real_sqrt_unique) simp_all
  moreover have "{0..<2::nat} - {0} = {1}" "{0..<2::nat} - {1} = {0}" by auto
  ultimately show ?thesis
    using GaussianBandit_mse_formula [of ?c 2, OF _ 1 2 3]
    by (simp add: upt_rec numeral_2_eq_2 power2_eq_square)
qed

section \<open>The MSE estimator\<close>

lemma ebind_Inr [simp]: "ebind (Inr x) f = f x"
  by (simp add: ebind_def)

lemma ebind_Inl [simp]: "ebind (Inl e) f = Inl e"
  by (simp add: ebind_def)

lemma ebind_eq_Inr: "ebind m f = Inr y \<longleftrightarrow> (\<exists>x. m = Inr x \<and> f x = Inr y)"
  by (cases m) simp_all

lemma is_mat_zeros: "is_mat n (np_zeros2 n)"
  by (simp add: is_mat_def np_zeros2_def list_all_iff)

lemma zeros_nth: "p < n \<Longrightarrow> q < n \<Longrightarrow> np_zeros2 n ! p ! q = 0"
  by (simp add: np_zeros2_def)

lemma is_mat_row: "is_mat n m \<Longrightarrow> p < n \<Longrightarrow> length (m ! p) = n"
  by (auto simp: is_mat_def list_all_iff)

lemma mat_set_ok:
  assumes "is_mat n m" "i < n" "j < n"
  shows "\<exists>m'. mat_set m i j v = Inr m' \<and> is_mat n m'
           \<and> (\<forall>p<n. \<forall>q<n. m' ! p ! q = (if p = i \<and> q = j then v else m ! p ! q))"
proof -
  let ?m = "m[i := (m ! i)[j := v]]"
  have l: "length m = n" "length (m ! i) = n" using assms is_mat_row by (auto simp: is_mat_def)
  have "mat_set m i j v = Inr ?m" using assms l by (simp add: mat_set_def)
  moreover have "is_mat n ?m"
    using assms l by (auto simp: is_mat_def list_all_iff dest!: set_update_subset_insert [THEN subsetD])
  moreover have "?m ! p ! q = (if p = i \<and> q = j then v else m ! p ! q)" if "p < n" "q < n" for p q
  proof (cases "p = i")
    case True
    then have "?m ! p = (m ! i)[j := v]" using l assms by simp
    then show ?thesis using True l that by (simp add: nth_list_update)
  next
    case False
    then show ?thesis by simp
  qed
  ultimately show ?thesis by blast
qed

lemma mat_set2_ok:
  assumes m: "is_mat n m" and a: "a < b" and b: "b < n"
  shows "\<exists>m'. (\<forall>f :: matrix \<Rightarrow> error + 'r.
                 ebind (mat_set m a b v) (\<lambda>m1. ebind (mat_set m1 b a w) f) = f m') \<and> is_mat n m'
           \<and> (\<forall>p<n. \<forall>q<n. m' ! p ! q =
                 (if p = a \<and> q = b then v else if p = b \<and> q = a then w else m ! p ! q))"
proof -
  have an: "a < n" using a b by simp
  from mat_set_ok [OF m an b, of v] obtain m1 where
    1: "mat_set m a b v = Inr m1" "is_mat n m1"
    "\<forall>p<n. \<forall>q<n. m1 ! p ! q = (if p = a \<and> q = b then v else m ! p ! q)" by blast
  from mat_set_ok [OF 1(2) b an, of w] obtain m2 where
    2: "mat_set m1 b a w = Inr m2" "is_mat n m2"
    "\<forall>p<n. \<forall>q<n. m2 ! p ! q = (if p = b \<and> q = a then w else m1 ! p ! q)" by blast
  have "\<forall>p<n. \<forall>q<n. m2 ! p ! q =
                 (if p = a \<and> q = b then v else if p = b \<and> q = a then w else m ! p ! q)"
    using 1(3) 2(3) a by auto
  then show ?thesis using 1 2 by (intro exI [of _ m2]) simp
qed

lemma pair_keys_Cons:
  "pair_keys n (((a, b), xs) # d) \<longleftrightarrow>
     a < b \<and> b < n \<and> (a, b) \<notin> fst ` set d \<and> pair_keys n d"
  by (auto simp: pair_keys_def)

lemma pair_keys_map_of_rev: "pair_keys n d \<Longrightarrow> a < b \<Longrightarrow> map_of d (b, a) = None"
  by (fastforce simp: pair_keys_def list_all_iff map_of_eq_None_iff)

lemma stat_cell_Cons:
  assumes "pair_keys n (((a, b), xs) # d)"
  shows "stat_cell (((a, b), xs) # d) f0 f1 dflt p q =
     stat_cell d f0 f1 (if p = a \<and> q = b then f0 xs else if p = b \<and> q = a then f1 xs else dflt) p q"
proof -
  from assms have ab: "a < b" and k: "pair_keys n d" and fresh: "map_of d (a, b) = None"
    by (auto simp: pair_keys_Cons map_of_eq_None_iff)
  have rev: "map_of d (b, a) = None" using pair_keys_map_of_rev [OF k ab] .
  show ?thesis using ab fresh rev by (auto simp: stat_cell_def split: option.splits)
qed


lemma sample_stats_loop_cells:
  assumes "pair_keys n d" "is_mat n emeans" "is_mat n evars" "is_mat n ecorrs"
  shows "\<exists>emeans' evars' ecorrs'.
     sample_stats_loop d (emeans, evars, ecorrs) = Inr (emeans', evars', ecorrs')
     \<and> is_mat n evars' \<and> is_mat n ecorrs'
     \<and> (\<forall>p<n. \<forall>q<n.
           evars' ! p ! q = stat_cell d (\<lambda>xs. np_var (map fst xs)) (\<lambda>xs. np_var (map snd xs))
                              (evars ! p ! q) p q
         \<and> ecorrs' ! p ! q = stat_cell d (\<lambda>xs. np_corrcoef (map fst xs) (map snd xs))
                               (\<lambda>xs. np_corrcoef (map fst xs) (map snd xs)) (ecorrs ! p ! q) p q)"
  using assms
proof (induction d arbitrary: emeans evars ecorrs)
  case Nil
  then show ?case by (simp add: stat_cell_def)
next
  case (Cons e d)
  obtain a b xs where e: "e = ((a, b), xs)" by (cases e) auto
  from Cons.prems(1) have ab: "a < b" "b < n" and k: "pair_keys n d"
    by (auto simp: e pair_keys_Cons)
  let ?r0 = "map fst xs" and ?r1 = "map snd xs"
  let ?c = "np_corrcoef ?r0 ?r1"
  from mat_set2_ok [OF Cons.prems(2) ab, of "np_mean ?r0" "np_mean ?r1"] obtain em where
    em: "\<And>f :: matrix \<Rightarrow> error + matrix \<times> matrix \<times> matrix.
           ebind (mat_set emeans a b (np_mean ?r0)) (\<lambda>m1. ebind (mat_set m1 b a (np_mean ?r1)) f) = f em"
    and em_mat: "is_mat n em" by blast
  from mat_set2_ok [OF Cons.prems(3) ab, of "np_var ?r0" "np_var ?r1"] obtain ev where
    ev: "\<And>f :: matrix \<Rightarrow> error + matrix \<times> matrix \<times> matrix.
           ebind (mat_set evars a b (np_var ?r0)) (\<lambda>m1. ebind (mat_set m1 b a (np_var ?r1)) f) = f ev"
    and ev_mat: "is_mat n ev"
    and ev_cell: "\<forall>p<n. \<forall>q<n. ev ! p ! q =
       (if p = a \<and> q = b then np_var ?r0 else if p = b \<and> q = a then np_var ?r1 else evars ! p ! q)"
    by blast
  from mat_set2_ok [OF Cons.prems(4) ab, of ?c ?c] obtain ec where
    ec: "\<And>f :: matrix \<Rightarrow> error + matrix \<times> matrix \<times> matrix.
           ebind (mat_set ecorrs a b ?c) (\<lambda>m1. ebind (mat_set m1 b a ?c) f) = f ec"
    and ec_mat: "is_mat n ec"
    and ec_cell: "\<forall>p<n. \<forall>q<n. ec ! p ! q =
       (if p = a \<and> q = b then ?c else if p = b \<and> q = a then ?c else ecorrs ! p ! q)"
    by blast
  have step: "sample_stats_loop (e # d) (emeans, evars, ecorrs) = sample_stats_loop d (em, ev, ec)"
    by (simp add: e Let_def em ev ec)
  from Cons.IH [OF k em_mat ev_mat ec_mat] obtain em' ev' ec' where
    r: "sample_stats_loop d (em, ev, ec) = Inr (em', ev', ec')" "is_mat n ev'" "is_mat n ec'"
    and cells: "\<forall>p<n. \<forall>q<n.
           ev' ! p ! q = stat_cell d (\<lambda>xs. np_var (map fst xs)) (\<lambda>xs. np_var (map snd xs))
                              (ev ! p ! q) p q
         \<and> ec' ! p ! q = stat_cell d (\<lambda>xs. np_corrcoef (map fst xs) (map snd xs))
                               (\<lambda>xs. np_corrcoef (map fst xs) (map snd xs)) (ec ! p ! q) p q"
    by blast
  have "\<forall>p<n. \<forall>q<n.
           ev' ! p ! q = stat_cell (e # d) (\<lambda>xs. np_var (map fst xs)) (\<lambda>xs. np_var (map snd xs))
                              (evars ! p ! q) p q
         \<and> ec' ! p ! q = stat_cell (e # d) (\<lambda>xs. np_corrcoef (map fst xs) (map snd xs))
                               (\<lambda>xs. np_corrcoef (map fst xs) (map snd xs)) (ecorrs ! p ! q) p q"
    using cells ev_cell ec_cell Cons.prems(1) unfolding e
    by (simp add: stat_cell_Cons [of n])
  moreover have "sample_stats_loop (e # d) (emeans, evars, ecorrs) = Inr (em', ev', ec')"
    using step r(1) by simp
  ultimately show ?case using r(2,3) by (intro exI [of _ em'] exI [of _ ev'] exI [of _ ec'] conjI)
qed


lemma stat_cell_Cons_if:
  assumes "pair_keys n (((a, b), xs) # d)"
  shows "stat_cell (((a, b), xs) # d) f0 f1 dflt p q =
     (if p = a \<and> q = b then f0 xs else if p = b \<and> q = a then f1 xs
      else stat_cell d f0 f1 dflt p q)"
proof -
  from assms have ab: "a < b" and k: "pair_keys n d" and fresh: "map_of d (a, b) = None"
    by (auto simp: pair_keys_Cons map_of_eq_None_iff)
  have rev: "map_of d (b, a) = None" using pair_keys_map_of_rev [OF k ab] .
  show ?thesis using ab fresh rev by (auto simp: stat_cell_def split: option.splits)
qed

lemma stat_cell_fresh:
  "map_of d (p, q) = None \<Longrightarrow> map_of d (q, p) = None \<Longrightarrow> stat_cell d f0 f1 dflt p q = dflt"
  by (simp add: stat_cell_def)

lemma fl_zero_term [simp]: "(0::fl) * (1 - 0 * 0) = 0"
  by (simp add: zero_fl_def one_fl_def times_fl_def minus_fl_def)

lemma mse_cells:
  assumes "pair_keys n d"
  shows "mse d n = Inr (map (\<lambda>i. \<Sum>p = 0..<n.
            stat_cell d (\<lambda>xs. np_var (map fst xs)) (\<lambda>xs. np_var (map snd xs)) 0 p i
            * (1 - stat_cell d (\<lambda>xs. np_corrcoef (map fst xs) (map snd xs))
                               (\<lambda>xs. np_corrcoef (map fst xs) (map snd xs)) 0 i p
                 * stat_cell d (\<lambda>xs. np_corrcoef (map fst xs) (map snd xs))
                               (\<lambda>xs. np_corrcoef (map fst xs) (map snd xs)) 0 i p)) [0..<n])"
proof -
  let ?V = "\<lambda>p i. stat_cell d (\<lambda>xs. np_var (map fst xs)) (\<lambda>xs. np_var (map snd xs)) 0 p i"
  let ?C = "\<lambda>i p. stat_cell d (\<lambda>xs. np_corrcoef (map fst xs) (map snd xs))
                               (\<lambda>xs. np_corrcoef (map fst xs) (map snd xs)) 0 i p"
  from sample_stats_loop_cells [OF assms is_mat_zeros is_mat_zeros is_mat_zeros]
  obtain em ev ec where
    r: "sample_stats d n = Inr (em, ev, ec)" and ev: "is_mat n ev" and ec: "is_mat n ec"
    and cells: "\<forall>p<n. \<forall>q<n. ev ! p ! q = ?V p q \<and> ec ! p ! q = ?C p q"
    unfolding sample_stats_def by (auto simp: zeros_nth)
  have len: "length ev = n" "length ec = n" using ev ec by (simp_all add: is_mat_def)
  let ?w = "map2 (map2 (\<lambda>v c. v * (1 - c * c))) (np_transpose ev) ec"
  have "map sum_list ?w = map (\<lambda>i. \<Sum>p = 0..<n. ?V p i * (1 - ?C i p * ?C i p)) [0..<n]"
  proof (rule nth_equalityI)
    show "length (map sum_list ?w) = length (map (\<lambda>i. \<Sum>p = 0..<n. ?V p i * (1 - ?C i p * ?C i p)) [0..<n])"
      using len by (simp add: np_transpose_def)
  next
    fix i assume "i < length (map sum_list ?w)"
    then have i: "i < n" using len by (simp add: np_transpose_def)
    have row: "length (ec ! i) = n" using is_mat_row [OF ec i] .
    have "map sum_list ?w ! i
        = sum_list (map2 (\<lambda>v c. v * (1 - c * c)) (map (\<lambda>row. row ! i) ev) (ec ! i))"
      using i len by (simp add: np_transpose_def)
    also have "\<dots> = (\<Sum>p = 0..<n. ev ! p ! i * (1 - ec ! i ! p * ec ! i ! p))"
      using row len by (simp add: sum_list_map2_nth)
    also have "\<dots> = (\<Sum>p = 0..<n. ?V p i * (1 - ?C i p * ?C i p))"
      using cells i by (intro sum.cong) auto
    finally show "map sum_list ?w ! i
        = map (\<lambda>i. \<Sum>p = 0..<n. ?V p i * (1 - ?C i p * ?C i p)) [0..<n] ! i"
      using i by simp
  qed
  then show ?thesis using r by (simp add: mse_def)
qed

lemma cells_sum_pairs:
  assumes "pair_keys n d" "i < n"
  shows "(\<Sum>p = 0..<n.
            stat_cell d (\<lambda>xs. np_var (map fst xs)) (\<lambda>xs. np_var (map snd xs)) 0 p i
            * (1 - stat_cell d (\<lambda>xs. np_corrcoef (map fst xs) (map snd xs))
                               (\<lambda>xs. np_corrcoef (map fst xs) (map snd xs)) 0 i p
                 * stat_cell d (\<lambda>xs. np_corrcoef (map fst xs) (map snd xs))
                               (\<lambda>xs. np_corrcoef (map fst xs) (map snd xs)) 0 i p))
       = sum_list (map (spec_pair_term i) (filter (\<lambda>e. fst (fst e) = i \<or> snd (fst e) = i) d))"
  using assms(1)
proof (induction d)
  case Nil
  then show ?case by (simp add: stat_cell_def)
next
  case (Cons e d)
  obtain a b xs where e: "e = ((a, b), xs)" by (cases e) auto
  let ?f0 = "\<lambda>xs. np_var (map fst xs)" and ?f1 = "\<lambda>xs. np_var (map snd xs)"
  let ?c = "\<lambda>xs. np_corrcoef (map fst xs) (map snd xs)"
  let ?G = "\<lambda>d p. stat_cell d ?f0 ?f1 0 p i * (1 - stat_cell d ?c ?c 0 i p * stat_cell d ?c ?c 0 i p)"
  from Cons.prems have ab: "a < b" "b < n" and k: "pair_keys n d"
    and fresh: "map_of d (a, b) = None"
    by (auto simp: e pair_keys_Cons map_of_eq_None_iff)
  have rev: "map_of d (b, a) = None" using pair_keys_map_of_rev [OF k ab(1)] .
  have keys: "pair_keys n (((a, b), xs) # d)" using Cons.prems by (simp add: e)
  note sc = stat_cell_Cons_if [OF keys]
  have IH: "(\<Sum>p = 0..<n. ?G d p)
      = sum_list (map (spec_pair_term i) (filter (\<lambda>e. fst (fst e) = i \<or> snd (fst e) = i) d))"
    using Cons.IH [OF k] .
  consider "a = i" | "b = i" | "a \<noteq> i" "b \<noteq> i" by blast
  then show ?case
  proof cases
    case 1
    then have bi: "b \<noteq> i" using ab by simp
    have G: "?G (e # d) p = (if p = b then spec_pair_term i e else ?G d p)" for p
      unfolding e sc using 1 ab by (auto simp: spec_pair_term_def Let_def)
    have Gb: "?G d b = 0" using fresh rev 1 by (simp add: stat_cell_fresh)
    have bn: "b \<in> {0..<n}" using ab by simp
    have "(\<Sum>p = 0..<n. ?G (e # d) p) = ?G (e # d) b + (\<Sum>p \<in> {0..<n} - {b}. ?G (e # d) p)"
      using bn by (intro sum.remove) auto
    also have "\<dots> = spec_pair_term i e + (\<Sum>p \<in> {0..<n} - {b}. ?G d p)"
      by (simp add: G)
    also have "(\<Sum>p \<in> {0..<n} - {b}. ?G d p) = ?G d b + (\<Sum>p \<in> {0..<n} - {b}. ?G d p)"
      by (simp only: Gb add_0)
    also have "\<dots> = (\<Sum>p = 0..<n. ?G d p)"
      using bn by (intro sum.remove [symmetric]) auto
    finally show ?thesis using 1 by (simp add: IH e)
  next
    case 2
    then have ai: "a \<noteq> i" using ab by simp
    have G: "?G (e # d) p = (if p = a then spec_pair_term i e else ?G d p)" for p
      unfolding e sc using 2 ab by (auto simp: spec_pair_term_def Let_def)
    have Ga: "?G d a = 0" using fresh rev 2 by (simp add: stat_cell_fresh)
    have an: "a \<in> {0..<n}" using ab by simp
    have "(\<Sum>p = 0..<n. ?G (e # d) p) = ?G (e # d) a + (\<Sum>p \<in> {0..<n} - {a}. ?G (e # d) p)"
      using an by (intro sum.remove) auto
    also have "\<dots> = spec_pair_term i e + (\<Sum>p \<in> {0..<n} - {a}. ?G d p)"
      by (simp add: G)
    also have "(\<Sum>p \<in> {0..<n} - {a}. ?G d p) = ?G d a + (\<Sum>p \<in> {0..<n} - {a}. ?G d p)"
      by (simp only: Ga add_0)
    also have "\<dots> = (\<Sum>p = 0..<n. ?G d p)"
      using an by (intro sum.remove [symmetric]) auto
    finally show ?thesis using 2 by (simp add: IH e)
  next
    case 3
    have "?G (e # d) p = ?G d p" for p
      unfolding e sc using 3 by simp
    then show ?thesis using 3 by (simp add: IH e)
  qed
qed


text \<open>
  C3. For a pair map whose keys are pairs \<open>(a, b)\<close> of arms with \<open>a < b < n\<close>, each held
  once, the estimator returns, for every arm \<open>i\<close>, the sum over the entries whose pair
  involves \<open>i\<close> of the population variance (\<open>ddof = 0\<close>) of the other arm's samples times
  one minus the squared Pearson coefficient, both taken over the whole batch held for
  the pair. Sums and products propagate NaN; the batches may be any, empty ones included.
\<close>

theorem mse_estimate:
  assumes "pair_keys n d"
  shows "mse d n = Inr (spec_estimate d n)"
proof -
  have "map (\<lambda>i. \<Sum>p = 0..<n.
            stat_cell d (\<lambda>xs. np_var (map fst xs)) (\<lambda>xs. np_var (map snd xs)) 0 p i
            * (1 - stat_cell d (\<lambda>xs. np_corrcoef (map fst xs) (map snd xs))
                               (\<lambda>xs. np_corrcoef (map fst xs) (map snd xs)) 0 i p
                 * stat_cell d (\<lambda>xs. np_corrcoef (map fst xs) (map snd xs))
                               (\<lambda>xs. np_corrcoef (map fst xs) (map snd xs)) 0 i p)) [0..<n]
      = spec_estimate d n"
    unfolding spec_estimate_def
    by (rule map_cong [OF refl]) (simp add: cells_sum_pairs [OF assms])
  then show ?thesis using mse_cells [OF assms] by simp
qed

lemma sqrt_4: "sqrt 4 = 2"
  by (rule real_sqrt_unique) simp_all

theorem mse_estimate_witness:
  "mse [((0, 1), [(0, 0), (1, 4), (2, 2)])] 2 = Inr [Fin 2, Fin (1 / 2)]"
proof -
  let ?d = "[((0, 1), [(0, 0), (1, 4), (2, 2)])] :: (pair \<times> batch) list"
  have k: "pair_keys 2 ?d" by (simp add: pair_keys_def)
  have c: "np_corrcoef [0, 1, 2] [0, 4, 2] = Fin (1 / 2)"
    by (simp add: np_corrcoef_def np_cov_def sqrt_4)
  have v: "np_var [0, 1, 2] = Fin (2 / 3)" "np_var [0, 4, 2] = Fin (8 / 3)"
    by (simp_all add: np_var_def power2_eq_square)
  have "spec_estimate ?d 2 = [Fin 2, Fin (1 / 2)]"
    by (simp add: spec_estimate_def spec_pair_term_def c v upt_rec numeral_2_eq_2
        times_fl_def minus_fl_def one_fl_def zero_fl_def plus_fl_def)
  then show ?thesis using mse_estimate [OF k] by simp
qed

section \<open>The sampler\<close>

lemma np_reshape_ok:
  assumes "0 < sz" "length flat = nat sz * c"
  shows "\<exists>rows. np_reshape flat sz = Inr rows \<and> length rows = nat sz
           \<and> list_all (\<lambda>row. length row = c) rows"
proof -
  have pos: "0 < nat sz" using assms by simp
  have d: "length flat div nat sz = c" using assms pos by simp
  have "length (take c (drop (r * c) flat)) = c" if "r < nat sz" for r
  proof -
    have "Suc r \<le> nat sz" using that by simp
    then have "Suc r * c \<le> nat sz * c" by (rule mult_le_mono1)
    then show ?thesis using assms by simp
  qed
  then show ?thesis using assms pos d by (simp add: np_reshape_def list_all_iff)
qed

lemma sample_arms_ok:
  assumes wf: "well_formed_source bandit" and sz: "0 < sz"
    and i: "fst p < num_arms bandit" and j: "snd p < num_arms bandit"
  shows "\<exists>xs g'. sample_arms bandit g p sz = Inr (xs, g') \<and> length xs = nat sz"
proof -
  from wf sz obtain flat g' where
    s: "sample_distr bandit g sz = Some (flat, g')" and l: "length flat = nat sz * num_arms bandit"
    unfolding well_formed_source_def by blast
  from np_reshape_ok [OF sz l] obtain rows where
    r: "np_reshape flat sz = Inr rows" "length rows = nat sz"
    "list_all (\<lambda>row. length row = num_arms bandit) rows" by blast
  have "list_all (\<lambda>row. fst p < length row \<and> snd p < length row) rows"
    using r(3) i j by (auto simp: list_all_iff)
  then show ?thesis using s r by (simp add: sample_arms_def)
qed

section \<open>Dicts\<close>

lemma dict_set_keys: "fst ` set (dict_set k v d) = insert k (fst ` set d)"
proof (induction d)
  case Nil
  then show ?case by simp
next
  case (Cons e d)
  obtain k' v' where e: "e = (k', v')" by (cases e) auto
  show ?case
  proof (cases "k = k'")
    case True
    then show ?thesis by (simp add: e)
  next
    case False
    then show ?thesis using Cons.IH by (simp add: e insert_commute)
  qed
qed

lemma dict_set_distinct: "distinct (map fst d) \<Longrightarrow> distinct (map fst (dict_set k v d))"
proof (induction d)
  case Nil
  then show ?case by simp
next
  case (Cons e d)
  have "fst ` set (dict_set k v d) = insert k (fst ` set d)" by (rule dict_set_keys)
  then show ?case using Cons by (cases e) auto
qed

lemma pair_keys_dict_set:
  assumes "pair_keys n d" "fst p < snd p" "snd p < n"
  shows "pair_keys n (dict_set p v d)"
proof -
  have "\<forall>e \<in> set (dict_set p v d). fst (fst e) < snd (fst e) \<and> snd (fst e) < n"
  proof
    fix e assume "e \<in> set (dict_set p v d)"
    then have "fst e \<in> insert p (fst ` set d)" using dict_set_keys [of p v d] by auto
    then show "fst (fst e) < snd (fst e) \<and> snd (fst e) < n"
      using assms by (auto simp: pair_keys_def list_all_iff)
  qed
  then show ?thesis using assms dict_set_distinct by (auto simp: pair_keys_def list_all_iff)
qed

lemma pair_keys_filter: "pair_keys n d \<Longrightarrow> pair_keys n (filter P d)"
  by (auto simp: pair_keys_def list_all_iff distinct_map_filter)

lemma sr_sample_loop_ok:
  assumes wf: "well_formed_source bandit" and t: "0 \<le> t"
    and A: "list_all (\<lambda>p. fst p < snd p \<and> snd p < num_arms bandit) A"
    and d: "pair_keys (num_arms bandit) d"
  shows "\<exists>d' g'. sr_sample_loop bandit t A d g = Inr (d', g') \<and> pair_keys (num_arms bandit) d'"
  using A d
proof (induction A arbitrary: d g)
  case Nil
  then show ?case by simp
next
  case (Cons p ps)
  show ?case
  proof (cases "t = 0")
    case True
    then show ?thesis using Cons.prems by simp
  next
    case False
    then have pos: "0 < t" using t by simp
    from Cons.prems(1) have p: "fst p < snd p" "snd p < num_arms bandit"
      and ps: "list_all (\<lambda>p. fst p < snd p \<and> snd p < num_arms bandit) ps" by simp_all
    have "fst p < num_arms bandit" using p by simp
    from sample_arms_ok [OF wf pos this p(2)] obtain xs g' where
      s: "sample_arms bandit g p t = Inr (xs, g')" by blast
    let ?d = "case map_of d p of None \<Rightarrow> dict_set p xs d | Some old \<Rightarrow> dict_set p (old @ xs) d"
    have "pair_keys (num_arms bandit) ?d"
      using pair_keys_dict_set [OF Cons.prems(2) p] by (simp split: option.split)
    from Cons.IH [OF ps this] show ?thesis using False s by simp
  qed
qed


section \<open>One phase of Successive Rejects\<close>

lemma max_from_mem: "max_from best xs \<in> set (best # xs)"
  by (induction xs arbitrary: best) (auto split: if_splits)

lemma min_from_mem: "min_from best xs \<in> set (best # xs)"
  by (induction xs arbitrary: best) (auto split: if_splits)

lemma fl_less_trans: "fl_less a b \<Longrightarrow> fl_less b c \<Longrightarrow> fl_less a c"
  by (cases a; cases b; cases c) (simp_all add: fl_less_def)

lemma fl_less_asym: "fl_less a b \<Longrightarrow> \<not> fl_less b a"
  by (cases a; cases b) (simp_all add: fl_less_def)

lemma min_from_le: "min_from best xs = best \<or> fl_less (min_from best xs) best"
proof (induction xs arbitrary: best)
  case Nil
  then show ?case by simp
next
  case (Cons x xs)
  show ?case
  proof (cases "fl_less x best")
    case True
    then show ?thesis using Cons.IH [of x] by (auto intro: fl_less_trans)
  next
    case False
    then show ?thesis using Cons.IH [of best] by simp
  qed
qed

lemma min_from_lower: "\<forall>x \<in> set (best # xs). \<not> fl_less x (min_from best xs)"
proof (induction xs arbitrary: best)
  case Nil
  then show ?case by (auto dest: fl_less_asym)
next
  case (Cons x xs)
  show ?case
  proof (cases "fl_less x best")
    case True
    have "fl_less (min_from x xs) best"
      using min_from_le [of x xs] True by (auto intro: fl_less_trans)
    then have "\<not> fl_less best (min_from x xs)" by (rule fl_less_asym)
    then show ?thesis using True Cons.IH [of x] by simp
  next
    case False
    have "\<not> fl_less x (min_from best xs)"
      using min_from_le [of best xs] False by (auto dest: fl_less_trans)
    then show ?thesis using False Cons.IH [of best] by simp
  qed
qed

lemma length_spec_estimate [simp]: "length (spec_estimate d n) = n"
  by (simp add: spec_estimate_def)

lemma mse_ok: "pair_keys n d \<Longrightarrow> \<exists>vals. mse d n = Inr vals \<and> length vals = n"
  using mse_cells [of n d] by simp

lemma active_items_nonempty:
  "i \<in> set B \<Longrightarrow> i < length vals \<Longrightarrow> active_items vals B \<noteq> []"
  using set_active_items [of vals B] by (metis (mono_tags, lifting) empty_iff list.set(1) mem_Collect_eq)

lemma py_max_key_ok:
  assumes "i \<in> set B" "i < length vals"
  shows "\<exists>r. py_max_key (active_items vals B) = Inr (r, vals ! r) \<and> r \<in> set B \<and> r < length vals"
proof -
  obtain x xs where items: "active_items vals B = x # xs"
    using active_items_nonempty [OF assms] by (cases "active_items vals B") auto
  have "max_from x xs \<in> set (active_items vals B)" using max_from_mem [of x xs] by (simp add: items)
  then obtain r where "max_from x xs = (r, vals ! r)" "r < length vals" "r \<in> set B"
    by (auto simp: set_active_items)
  then show ?thesis by (auto simp: py_max_key_def items)
qed

lemma py_min_ok:
  assumes "i \<in> set B" "i < length vals"
  shows "\<exists>m. py_min (map snd (active_items vals B)) = Inr m
           \<and> (\<exists>j \<in> set B. j < length vals \<and> m = vals ! j)
           \<and> (\<forall>j \<in> set B. j < length vals \<longrightarrow> \<not> fl_less (vals ! j) m)"
proof -
  let ?vs = "map snd (active_items vals B)"
  have set_vs: "set ?vs = {vals ! j | j. j < length vals \<and> j \<in> set B}"
    by (auto simp: set_active_items image_iff)
  obtain x xs where vs: "?vs = x # xs"
    using active_items_nonempty [OF assms] by (cases ?vs) auto
  have "min_from x xs \<in> set ?vs" using min_from_mem [of x xs] by (simp only: vs)
  then have 1: "\<exists>j \<in> set B. j < length vals \<and> min_from x xs = vals ! j"
    unfolding set_vs by auto
  have "\<forall>v \<in> set ?vs. \<not> fl_less v (min_from x xs)" using min_from_lower [of x xs] by (simp only: vs)
  then have 2: "\<forall>j \<in> set B. j < length vals \<longrightarrow> \<not> fl_less (vals ! j) (min_from x xs)"
    unfolding set_vs by auto
  have "py_min ?vs = Inr (min_from x xs)" by (simp add: py_min_def vs)
  then show ?thesis using 1 2 by blast
qed

lemma sr_phase_ok:
  assumes wf: "well_formed_source bandit" and t: "0 \<le> t"
    and inv: "sr_inv (num_arms bandit) st" and ne: "sr_B st \<noteq> []"
  shows "\<exists>st' r vals m.
      sr_phase bandit t st = Inr st' \<and> sr_inv (num_arms bandit) st'
    \<and> r \<in> set (sr_B st) \<and> sr_B st' = removeAll r (sr_B st)
    \<and> sr_mse_vals st' = Some vals \<and> length vals = num_arms bandit
    \<and> py_max_key (active_items vals (sr_B st)) = Inr (r, vals ! r)
    \<and> sr_mse_ests st' = (sr_mse_ests st)[r := vals ! r]
    \<and> sr_min_mse st' = Some m
    \<and> py_min (map snd (active_items vals (sr_B st))) = Inr m"
proof -
  let ?K = "num_arms bandit"
  from inv have B: "distinct (sr_B st)" "list_all (\<lambda>i. i < ?K) (sr_B st)"
    and ests: "length (sr_mse_ests st) = ?K"
    and d: "pair_keys ?K (sr_arms_dict st)"
    and A: "list_all (\<lambda>p. fst p < snd p \<and> snd p < ?K) (sr_A st)"
    by (simp_all add: sr_inv_def)
  from sr_sample_loop_ok [OF wf t A d] obtain d' g' where
    s: "sr_sample_loop bandit t (sr_A st) (sr_arms_dict st) (sr_gen st) = Inr (d', g')"
    and d': "pair_keys ?K d'" by blast
  from mse_ok [OF d'] obtain vals where v: "mse d' ?K = Inr vals" "length vals = ?K" by blast
  obtain i where i: "i \<in> set (sr_B st)" using ne by (cases "sr_B st") auto
  then have il: "i < length vals" using B(2) v(2) by (auto simp: list_all_iff)
  from py_max_key_ok [OF i il] obtain r where
    r: "py_max_key (active_items vals (sr_B st)) = Inr (r, vals ! r)" "r \<in> set (sr_B st)"
    "r < length vals" by blast
  from py_min_ok [OF i il] obtain m where
    m: "py_min (map snd (active_items vals (sr_B st))) = Inr m" by blast
  have vs: "vec_set (sr_mse_ests st) r (vals ! r) = Inr ((sr_mse_ests st)[r := vals ! r])"
    using r(3) v(2) ests by (simp add: vec_set_def)
  let ?B = "removeAll r (sr_B st)"
  let ?keep = "\<lambda>p. fst p \<in> set ?B \<or> snd p \<in> set ?B"
  let ?st = "\<lparr>sr_B = ?B, sr_A = filter ?keep (sr_A st),
              sr_mse_ests = (sr_mse_ests st)[r := vals ! r],
              sr_arms_dict = filter (\<lambda>(p, v). ?keep p) d',
              sr_mse_vals = Some vals, sr_min_mse = Some m, sr_gen = g'\<rparr>"
  have run: "sr_phase bandit t st = Inr ?st"
    by (simp add: sr_phase_def s v r(1) vs m Let_def)
  have "sr_inv ?K ?st"
    using B ests A pair_keys_filter [OF d']
    by (auto simp: sr_inv_def list_all_iff distinct_removeAll)
  then show ?thesis using run r(1,2) v(2) m
    by (intro exI [of _ ?st] exI [of _ r] exI [of _ vals] exI [of _ m]) simp
qed


section \<open>The phase increments\<close>

lemma length_sr_trials [simp]: "length (sr_trials fp n K) = K - 1"
  by (simp add: sr_trials_def)

lemma sr_ts_length [simp]: "length (sr_ts fp trials K) = K - 1"
  by (simp add: sr_ts_def sr_ns_def Let_def del: butlast.simps)

lemma sr_ts_nth:
  assumes "k < K - 1"
  shows "sr_ts fp trials K ! k = sr_ns fp trials K ! Suc k - sr_ns fp trials K ! k"
proof -
  let ?ns = "sr_ns fp trials K"
  have l: "length ?ns = K" using assms by (simp add: sr_ns_def)
  have "sr_ts fp trials K ! k = tl ?ns ! k - butlast ?ns ! k"
    using assms l by (simp add: sr_ts_def Let_def)
  also have "tl ?ns ! k = ?ns ! Suc k" using assms l by (simp add: nth_tl)
  also have "butlast ?ns ! k = ?ns ! k" using assms l by (simp add: nth_butlast)
  finally show ?thesis .
qed

lemma sr_trials_nth:
  assumes "k < K - 1"
  shows "sr_trials fp n K ! k = \<lceil>sr_x fp n K / sr_div fp K k\<rceil>"
proof -
  have "[1..<K] ! k = Suc k" using assms by simp
  then have "sr_trials fp n K ! k
     = - \<lfloor>(- rnd fp (rnd fp (real_of_int n) - rnd fp (sr_K2 K)))
            / rnd fp (sr_ck fp K * rnd fp (real K + 1 - real (Suc k)))\<rfloor>"
    using assms unfolding sr_trials_def Let_def by simp
  also have "real K + 1 - real (Suc k) = real K - real k" by simp
  finally show ?thesis by (simp only: neg_floor_neg_divide sr_x_def sr_div_def)
qed

lemma sr_x_nonneg: "sr_K2 K \<le> real_of_int n \<Longrightarrow> 0 \<le> sr_x fp n K"
  unfolding sr_x_def using rnd_mono [of "sr_K2 K" "real_of_int n" fp] by (intro rnd_nonneg) simp

lemma sr_x_nonpos: "real_of_int n \<le> sr_K2 K \<Longrightarrow> sr_x fp n K \<le> 0"
  unfolding sr_x_def using rnd_mono [of "real_of_int n" "sr_K2 K" fp] by (intro rnd_nonpos) simp

lemma sr_div_antimono:
  assumes "Suc k < K - 1"
  shows "sr_div fp K (Suc k) \<le> sr_div fp K k"
proof -
  have "2 \<le> K" using assms by simp
  then have "1 / 2 \<le> sr_ck fp K" by (rule sr_ck_ge)
  then have "0 \<le> sr_ck fp K" by linarith
  moreover have "rnd fp (real K - real (Suc k)) \<le> rnd fp (real K - real k)"
    by (rule rnd_mono) simp
  ultimately have "sr_ck fp K * rnd fp (real K - real (Suc k))
      \<le> sr_ck fp K * rnd fp (real K - real k)"
    by (rule mult_left_mono [rotated])
  then show ?thesis unfolding sr_div_def by (rule rnd_mono)
qed

lemma sr_trials_nonneg:
  assumes "sr_K2 K \<le> real_of_int n" "k < K - 1"
  shows "0 \<le> sr_trials fp n K ! k"
proof -
  have "0 < sr_div fp K k" using sr_div_ge [OF assms(2), of fp] by linarith
  then have "0 \<le> sr_x fp n K / sr_div fp K k" using sr_x_nonneg [OF assms(1), of fp] by simp
  then show ?thesis unfolding sr_trials_nth [OF assms(2)] by linarith
qed

lemma sr_trials_mono:
  assumes "sr_K2 K \<le> real_of_int n" "Suc k < K - 1"
  shows "sr_trials fp n K ! k \<le> sr_trials fp n K ! Suc k"
proof -
  have d: "0 < sr_div fp K (Suc k)" using sr_div_ge [OF assms(2), of fp] by linarith
  have "sr_x fp n K / sr_div fp K k \<le> sr_x fp n K / sr_div fp K (Suc k)"
    using d sr_div_antimono [OF assms(2), of fp] sr_x_nonneg [OF assms(1), of fp]
    by (intro divide_left_mono) auto
  then show ?thesis
    using assms by (simp only: sr_trials_nth Suc_lessD ceiling_mono)
qed

lemma sr_ts_nonneg:
  assumes "sr_K2 K \<le> real_of_int trials" "k < K - 1"
  shows "0 \<le> sr_ts fp trials K ! k"
proof (cases k)
  case 0
  then show ?thesis
    using sr_trials_nonneg [OF assms, of fp] assms(2) by (simp add: sr_ts_nth sr_ns_def)
next
  case (Suc j)
  then show ?thesis
    using sr_trials_mono [OF assms(1), of j fp] assms(2) by (simp add: sr_ts_nth sr_ns_def)
qed

lemma sr_trials_nonpos:
  assumes "real_of_int n \<le> sr_K2 K" "k < K - 1"
  shows "sr_trials fp n K ! k \<le> 0"
proof -
  have "0 < sr_div fp K k" using sr_div_ge [OF assms(2), of fp] by linarith
  then have "sr_x fp n K / sr_div fp K k \<le> 0"
    using sr_x_nonpos [OF assms(1), of fp] by (simp add: divide_le_0_iff)
  then show ?thesis unfolding sr_trials_nth [OF assms(2)] by (simp add: ceiling_le_iff)
qed

lemma sr_trials_antimono:
  assumes "real_of_int n \<le> sr_K2 K" "Suc k < K - 1"
  shows "sr_trials fp n K ! Suc k \<le> sr_trials fp n K ! k"
proof -
  have d: "0 < sr_div fp K (Suc k)" using sr_div_ge [OF assms(2), of fp] by linarith
  have "sr_x fp n K / sr_div fp K (Suc k) \<le> sr_x fp n K / sr_div fp K k"
    using d sr_div_antimono [OF assms(2), of fp] sr_x_nonpos [OF assms(1), of fp]
    by (intro divide_left_mono_neg) auto
  then show ?thesis
    using assms by (simp only: sr_trials_nth Suc_lessD ceiling_mono)
qed

lemma sr_ts_nonpos:
  assumes "real_of_int trials \<le> sr_K2 K" "k < K - 1"
  shows "sr_ts fp trials K ! k \<le> 0"
proof (cases k)
  case 0
  then show ?thesis
    using sr_trials_nonpos [OF assms, of fp] assms(2) by (simp add: sr_ts_nth sr_ns_def)
next
  case (Suc j)
  then show ?thesis
    using sr_trials_antimono [OF assms(1), of j fp] assms(2) by (simp add: sr_ts_nth sr_ns_def)
qed

section \<open>The run of Successive Rejects\<close>

lemma ebind_assoc: "ebind (ebind m f) h = ebind m (\<lambda>x. ebind (f x) h)"
  by (cases m) simp_all

lemma sr_loop_append:
  "sr_loop bandit (ts1 @ ts2) st = ebind (sr_loop bandit ts1 st) (sr_loop bandit ts2)"
proof (induction ts1 arbitrary: st)
  case Nil
  then show ?case by simp
next
  case (Cons t ts1)
  have "sr_loop bandit (ts1 @ ts2) = (\<lambda>x. ebind (sr_loop bandit ts1 x) (sr_loop bandit ts2))"
    using Cons.IH by blast
  then show ?case by (simp add: ebind_assoc)
qed

lemma sr_loop_single: "sr_loop bandit [t] st = sr_phase bandit t st"
  by (cases "sr_phase bandit t st") simp_all

lemma sr_after_0 [simp]: "sr_after fp bandit g trials 0 = Inr (sr_init bandit g)"
  by (simp add: sr_after_def)

lemma sr_after_Suc:
  assumes "k < num_arms bandit - 1"
  shows "sr_after fp bandit g trials (Suc k) =
     ebind (sr_after fp bandit g trials k) (sr_phase bandit (sr_ts fp trials (num_arms bandit) ! k))"
proof -
  let ?ts = "sr_ts fp trials (num_arms bandit)"
  have "take (Suc k) ?ts = take k ?ts @ [?ts ! k]"
    using assms by (simp add: take_Suc_conv_app_nth)
  then have "sr_loop bandit (take (Suc k) ?ts) (sr_init bandit g)
      = ebind (sr_loop bandit (take k ?ts) (sr_init bandit g)) (sr_loop bandit [?ts ! k])"
    by (simp only: sr_loop_append)
  also have "sr_loop bandit [?ts ! k] = sr_phase bandit (?ts ! k)"
    using sr_loop_single by blast
  finally show ?thesis unfolding sr_after_def .
qed

lemma set_all_pairs: "set (all_pairs K) = {(i, j). i < j \<and> j < K}"
proof -
  have "(a, b) \<in> set (all_pairs K)" if "a < b" "b < K" for a b
  proof -
    have "a \<in> {0..<K}" "(a, b) \<in> Pair a ` {Suc a..<K}" using that by auto
    then show ?thesis unfolding all_pairs_def by (simp add: image_iff)
  qed
  moreover have "a < b \<and> b < K" if "(a, b) \<in> set (all_pairs K)" for a b
    using that by (auto simp: all_pairs_def)
  ultimately show ?thesis by auto
qed

lemma sr_init_inv: "sr_inv (num_arms bandit) (sr_init bandit g)"
  by (auto simp: sr_inv_def sr_init_def pair_keys_def list_all_iff set_all_pairs)

lemma length_removeAll_distinct:
  "distinct xs \<Longrightarrow> x \<in> set xs \<Longrightarrow> length (removeAll x xs) = length xs - 1"
  by (simp add: distinct_remove1_removeAll [symmetric] length_remove1)

lemma sr_step:
  assumes wf: "well_formed_source bandit"
    and budget: "sr_K2 (num_arms bandit) \<le> real_of_int trials"
    and k: "k < num_arms bandit - 1"
  shows "\<exists>st st' r vals m.
      sr_after fp bandit g trials k = Inr st \<and> sr_after fp bandit g trials (Suc k) = Inr st'
    \<and> sr_inv (num_arms bandit) st \<and> length (sr_B st) = num_arms bandit - k
    \<and> sr_inv (num_arms bandit) st' \<and> length (sr_B st') = num_arms bandit - Suc k
    \<and> r \<in> set (sr_B st) \<and> sr_B st' = removeAll r (sr_B st)
    \<and> sr_mse_vals st' = Some vals \<and> length vals = num_arms bandit
    \<and> py_max_key (active_items vals (sr_B st)) = Inr (r, vals ! r)
    \<and> sr_mse_ests st' = (sr_mse_ests st)[r := vals ! r]
    \<and> sr_min_mse st' = Some m
    \<and> py_min (map snd (active_items vals (sr_B st))) = Inr m"
  using k
proof (induction k)
  case 0
  let ?st = "sr_init bandit g"
  have inv: "sr_inv (num_arms bandit) ?st" by (rule sr_init_inv)
  have len: "length (sr_B ?st) = num_arms bandit - 0" by (simp add: sr_init_def)
  then have ne: "sr_B ?st \<noteq> []" using 0 by auto
  have t: "0 \<le> sr_ts fp trials (num_arms bandit) ! 0" using sr_ts_nonneg [OF budget 0, of fp] .
  from sr_phase_ok [OF wf t inv ne] obtain st' r vals m where
    p: "sr_phase bandit (sr_ts fp trials (num_arms bandit) ! 0) ?st = Inr st'"
      "sr_inv (num_arms bandit) st'" "r \<in> set (sr_B ?st)" "sr_B st' = removeAll r (sr_B ?st)"
      "sr_mse_vals st' = Some vals" "length vals = num_arms bandit"
      "py_max_key (active_items vals (sr_B ?st)) = Inr (r, vals ! r)"
      "sr_mse_ests st' = (sr_mse_ests ?st)[r := vals ! r]"
      "sr_min_mse st' = Some m"
      "py_min (map snd (active_items vals (sr_B ?st))) = Inr m" by blast
  have next_state: "sr_after fp bandit g trials (Suc 0) = Inr st'"
    using p(1) by (simp add: sr_after_Suc [OF 0])
  have "distinct (sr_B ?st)" using inv by (simp add: sr_inv_def)
  then have "length (sr_B st') = num_arms bandit - Suc 0"
    using p(3,4) len by (simp add: length_removeAll_distinct)
  then show ?case using next_state inv len p
    by (intro exI [of _ ?st] exI [of _ st'] exI [of _ r] exI [of _ vals] exI [of _ m]) simp
next
  case (Suc k)
  then have "k < num_arms bandit - 1" by simp
  from Suc.IH [OF this] obtain st where
    cur: "sr_after fp bandit g trials (Suc k) = Inr st"
    and inv: "sr_inv (num_arms bandit) st"
    and len: "length (sr_B st) = num_arms bandit - Suc k" by blast
  have ne: "sr_B st \<noteq> []" using len Suc.prems by auto
  have t: "0 \<le> sr_ts fp trials (num_arms bandit) ! Suc k" using sr_ts_nonneg [OF budget Suc.prems, of fp] .
  from sr_phase_ok [OF wf t inv ne] obtain st' r vals m where
    p: "sr_phase bandit (sr_ts fp trials (num_arms bandit) ! Suc k) st = Inr st'"
      "sr_inv (num_arms bandit) st'" "r \<in> set (sr_B st)" "sr_B st' = removeAll r (sr_B st)"
      "sr_mse_vals st' = Some vals" "length vals = num_arms bandit"
      "py_max_key (active_items vals (sr_B st)) = Inr (r, vals ! r)"
      "sr_mse_ests st' = (sr_mse_ests st)[r := vals ! r]"
      "sr_min_mse st' = Some m"
      "py_min (map snd (active_items vals (sr_B st))) = Inr m" by blast
  have next_state: "sr_after fp bandit g trials (Suc (Suc k)) = Inr st'"
    using p(1) cur by (simp add: sr_after_Suc [OF Suc.prems])
  have "distinct (sr_B st)" using inv by (simp add: sr_inv_def)
  then have "length (sr_B st') = num_arms bandit - Suc (Suc k)"
    using p(3,4) len by (simp add: length_removeAll_distinct)
  then show ?case using next_state cur inv len p
    by (intro exI [of _ st] exI [of _ st'] exI [of _ r] exI [of _ vals] exI [of _ m]) simp
qed

section \<open>Termination with one surviving arm\<close>

lemma sr_after_full:
  "sr_after fp bandit g trials (num_arms bandit - 1)
     = sr_loop bandit (sr_ts fp trials (num_arms bandit)) (sr_init bandit g)"
  by (simp add: sr_after_def)

lemma sr_finish_ok:
  assumes "sr_B st = [arm]" "sr_min_mse st = Some m" "sr_inv n st"
  shows "sr_finish st = Inr (arm, (sr_mse_ests st)[arm := m])"
proof -
  have "arm < length (sr_mse_ests st)" using assms by (simp add: sr_inv_def)
  then show ?thesis using assms by (simp add: sr_finish_def vec_set_def)
qed

lemma sr_last:
  assumes wf: "well_formed_source bandit"
    and budget: "sr_K2 (num_arms bandit) \<le> real_of_int trials"
    and K: "2 \<le> num_arms bandit"
  shows "\<exists>st arm m. sr_after fp bandit g trials (num_arms bandit - 1) = Inr st
           \<and> sr_inv (num_arms bandit) st \<and> sr_B st = [arm] \<and> sr_min_mse st = Some m
           \<and> successive_rejects fp bandit g trials = Inr (arm, (sr_mse_ests st)[arm := m])"
proof -
  have k: "num_arms bandit - 2 < num_arms bandit - 1" using K by simp
  have S: "Suc (num_arms bandit - 2) = num_arms bandit - 1" using K by simp
  from sr_step [OF wf budget k, of fp g] obtain st m where
    st: "sr_after fp bandit g trials (num_arms bandit - 1) = Inr st"
    and inv: "sr_inv (num_arms bandit) st"
    and len: "length (sr_B st) = num_arms bandit - (num_arms bandit - 1)"
    and m: "sr_min_mse st = Some m"
    unfolding S by blast
  have "length (sr_B st) = 1" using len K by simp
  then obtain arm where B: "sr_B st = [arm]" by (cases "sr_B st") auto
  have "successive_rejects fp bandit g trials = sr_finish st"
    using st [unfolded sr_after_full] by (simp add: successive_rejects_def)
  then show ?thesis using sr_finish_ok [OF B m inv] st inv B m by simp
qed

text \<open>
  C4. With at least two arms, a budget of at least \<open>K(K-1)/2\<close> and a well-formed source,
  in every float arithmetic, the run has \<open>K - 1\<close> phase increments and none of its phases fails. Phase \<open>k + 1\<close> takes the state
  after \<open>k\<close> phases, whose active set \<open>B\<close> has \<open>K - k\<close> arms, and removes exactly one arm
  \<open>r\<close> of \<open>B\<close>, leaving \<open>K - (k+1)\<close>; after the last phase \<open>B\<close> holds a single arm, which
  the run returns.
\<close>

theorem successive_rejects_phases:
  assumes wf: "well_formed_source bandit"
    and budget: "sr_K2 (num_arms bandit) \<le> real_of_int trials"
    and K: "2 \<le> num_arms bandit"
  shows "length (sr_ts fp trials (num_arms bandit)) = num_arms bandit - 1
    \<and> (\<forall>k < num_arms bandit - 1. \<exists>st st' r.
          sr_after fp bandit g trials k = Inr st
        \<and> sr_phase bandit (sr_ts fp trials (num_arms bandit) ! k) st = Inr st'
        \<and> sr_after fp bandit g trials (Suc k) = Inr st'
        \<and> card (set (sr_B st)) = num_arms bandit - k
        \<and> r \<in> set (sr_B st) \<and> set (sr_B st') = set (sr_B st) - {r}
        \<and> card (set (sr_B st')) = num_arms bandit - Suc k)
    \<and> (\<exists>st arm mse_ests.
          sr_loop bandit (sr_ts fp trials (num_arms bandit)) (sr_init bandit g) = Inr st
        \<and> sr_B st = [arm]
        \<and> successive_rejects fp bandit g trials = Inr (arm, mse_ests))"
proof (intro conjI allI impI)
  show "length (sr_ts fp trials (num_arms bandit)) = num_arms bandit - 1" by simp
next
  fix k assume k: "k < num_arms bandit - 1"
  from sr_step [OF wf budget k, of fp g] obtain st st' r where
    a: "sr_after fp bandit g trials k = Inr st" "sr_after fp bandit g trials (Suc k) = Inr st'"
    and inv: "sr_inv (num_arms bandit) st" "sr_inv (num_arms bandit) st'"
    and len: "length (sr_B st) = num_arms bandit - k" "length (sr_B st') = num_arms bandit - Suc k"
    and r: "r \<in> set (sr_B st)" "sr_B st' = removeAll r (sr_B st)" by blast
  have ph: "sr_phase bandit (sr_ts fp trials (num_arms bandit) ! k) st = Inr st'"
    using a sr_after_Suc [OF k, of fp g trials] by simp
  have d: "distinct (sr_B st)" "distinct (sr_B st')" using inv by (simp_all add: sr_inv_def)
  have "card (set (sr_B st)) = num_arms bandit - k" "card (set (sr_B st')) = num_arms bandit - Suc k"
    using d len by (simp_all add: distinct_card)
  moreover have "set (sr_B st') = set (sr_B st) - {r}" using r(2) by simp
  ultimately show "\<exists>st st' r.
          sr_after fp bandit g trials k = Inr st
        \<and> sr_phase bandit (sr_ts fp trials (num_arms bandit) ! k) st = Inr st'
        \<and> sr_after fp bandit g trials (Suc k) = Inr st'
        \<and> card (set (sr_B st)) = num_arms bandit - k
        \<and> r \<in> set (sr_B st) \<and> set (sr_B st') = set (sr_B st) - {r}
        \<and> card (set (sr_B st')) = num_arms bandit - Suc k"
    using a ph r(1) by blast
next
  from sr_last [OF wf budget K, of fp g] obtain st arm m where
    "sr_loop bandit (sr_ts fp trials (num_arms bandit)) (sr_init bandit g) = Inr st" "sr_B st = [arm]"
    "successive_rejects fp bandit g trials = Inr (arm, (sr_mse_ests st)[arm := m])"
    unfolding sr_after_full by blast
  then show "\<exists>st arm mse_ests.
          sr_loop bandit (sr_ts fp trials (num_arms bandit)) (sr_init bandit g) = Inr st
        \<and> sr_B st = [arm]
        \<and> successive_rejects fp bandit g trials = Inr (arm, mse_ests)"
    by blast
qed

lemma demo_bandit_wf: "well_formed_source (demo_bandit K)"
  by (simp add: well_formed_source_def demo_bandit_def)

lemma num_arms_demo [simp]: "num_arms (demo_bandit K) = K"
  by (simp add: demo_bandit_def)

theorem successive_rejects_phases_witness:
  "length (sr_ts exact_arith 30 3) = 2
    \<and> (\<exists>st st' r.
          sr_after exact_arith (demo_bandit 3) 0 30 0 = Inr st
        \<and> sr_phase (demo_bandit 3) (sr_ts exact_arith 30 3 ! 0) st = Inr st'
        \<and> sr_after exact_arith (demo_bandit 3) 0 30 1 = Inr st'
        \<and> card (set (sr_B st)) = 3
        \<and> r \<in> set (sr_B st) \<and> set (sr_B st') = set (sr_B st) - {r}
        \<and> card (set (sr_B st')) = 2)
    \<and> (\<exists>st st' r.
          sr_after exact_arith (demo_bandit 3) 0 30 1 = Inr st
        \<and> sr_phase (demo_bandit 3) (sr_ts exact_arith 30 3 ! 1) st = Inr st'
        \<and> sr_after exact_arith (demo_bandit 3) 0 30 2 = Inr st'
        \<and> card (set (sr_B st)) = 2
        \<and> r \<in> set (sr_B st) \<and> set (sr_B st') = set (sr_B st) - {r}
        \<and> card (set (sr_B st')) = 1)
    \<and> (\<exists>st arm mse_ests.
          sr_loop (demo_bandit 3) (sr_ts exact_arith 30 3) (sr_init (demo_bandit 3) 0) = Inr st
        \<and> sr_B st = [arm]
        \<and> successive_rejects exact_arith (demo_bandit 3) 0 30 = Inr (arm, mse_ests))"
proof -
  have b: "sr_K2 (num_arms (demo_bandit 3)) \<le> real_of_int 30" by (simp add: sr_K2_def)
  have K: "2 \<le> num_arms (demo_bandit 3)" by simp
  note t = successive_rejects_phases [OF demo_bandit_wf b K, of exact_arith 0, unfolded num_arms_demo]
  have n: "(3::nat) - 1 = 2" "(3::nat) - 0 = 3" "(3::nat) - Suc 0 = 2" "(3::nat) - Suc 1 = 1"
    "Suc 0 = 1" "Suc 1 = 2" "(3::nat) - 2 = 1"
    by simp_all
  have k: "(0::nat) < 3 - 1" "(1::nat) < 3 - 1" by simp_all
  note phases = t [THEN conjunct2, THEN conjunct1, rule_format]
  show ?thesis
    using t [THEN conjunct1] phases [OF k(1)] phases [OF k(2)] t [THEN conjunct2, THEN conjunct2]
    unfolding n by (intro conjI)
qed

section \<open>The estimates the run returns\<close>

text \<open>
  C6. With at least two arms, a budget of at least \<open>K(K-1)/2\<close> and a well-formed source,
  let \<open>st\<close> be the state before the final phase and \<open>vals\<close> the estimates computed in the
  final phase. The returned vector holds, at the winning arm, the minimum of \<open>vals\<close> over
  the arms of \<open>B\<close> in that phase: the value of one of these arms, which none of them is
  below.
\<close>

theorem successive_rejects_winner_min:
  assumes wf: "well_formed_source bandit"
    and budget: "sr_K2 (num_arms bandit) \<le> real_of_int trials"
    and K: "2 \<le> num_arms bandit"
  shows "\<exists>st st' vals arm mse_ests.
      sr_after fp bandit g trials (num_arms bandit - 2) = Inr st
    \<and> sr_after fp bandit g trials (num_arms bandit - 1) = Inr st'
    \<and> sr_mse_vals st' = Some vals
    \<and> successive_rejects fp bandit g trials = Inr (arm, mse_ests)
    \<and> arm \<in> set (sr_B st)
    \<and> py_min (map snd (active_items vals (sr_B st))) = Inr (mse_ests ! arm)
    \<and> (\<exists>j \<in> set (sr_B st). mse_ests ! arm = vals ! j)
    \<and> (\<forall>j \<in> set (sr_B st). \<not> fl_less (vals ! j) (mse_ests ! arm))"
proof -
  let ?K = "num_arms bandit"
  have k: "?K - 2 < ?K - 1" using K by simp
  have S: "Suc (?K - 2) = ?K - 1" using K by simp
  from sr_step [OF wf budget k, of fp g] obtain st st' r vals m where
    a: "sr_after fp bandit g trials (?K - 2) = Inr st" "sr_after fp bandit g trials (?K - 1) = Inr st'"
    and inv: "sr_inv ?K st"
    and r: "r \<in> set (sr_B st)" "sr_B st' = removeAll r (sr_B st)"
    and vals: "sr_mse_vals st' = Some vals" "length vals = ?K"
    and m: "sr_min_mse st' = Some m" "py_min (map snd (active_items vals (sr_B st))) = Inr m"
    unfolding S by blast
  from sr_last [OF wf budget K, of fp g] obtain st2 arm m2 where
    l: "sr_after fp bandit g trials (?K - 1) = Inr st2" "sr_inv ?K st2" "sr_B st2 = [arm]"
      "sr_min_mse st2 = Some m2"
      "successive_rejects fp bandit g trials = Inr (arm, (sr_mse_ests st2)[arm := m2])" by blast
  have st2: "st2 = st'" using a(2) l(1) by simp
  then have m2: "m2 = m" using m(1) l(4) by simp
  have "arm \<in> set (removeAll r (sr_B st))" using l(3) r(2) st2 by simp
  then have armB: "arm \<in> set (sr_B st)" by simp
  have "arm < length (sr_mse_ests st')" using l(2,3) st2 by (simp add: sr_inv_def)
  then have val: "(sr_mse_ests st')[arm := m] ! arm = m" by simp
  have inB: "\<forall>j \<in> set (sr_B st). j < length vals"
    using inv vals(2) by (simp add: sr_inv_def list_all_iff)
  have rl: "r < length vals" using inB r(1) by simp
  from py_min_ok [OF r(1) rl] m(2) inB have
    "\<exists>j \<in> set (sr_B st). m = vals ! j" "\<forall>j \<in> set (sr_B st). \<not> fl_less (vals ! j) m"
    by auto
  then show ?thesis
    using a vals(1) l(5) armB m(2) val unfolding st2 m2
    by (intro exI [of _ st] exI [of _ st'] exI [of _ vals] exI [of _ arm]
        exI [of _ "(sr_mse_ests st')[arm := m]"]) simp
qed

theorem successive_rejects_winner_min_witness:
  "\<exists>st st' vals arm mse_ests.
      sr_after exact_arith (demo_bandit 3) 0 30 1 = Inr st
    \<and> sr_after exact_arith (demo_bandit 3) 0 30 2 = Inr st'
    \<and> sr_mse_vals st' = Some vals
    \<and> successive_rejects exact_arith (demo_bandit 3) 0 30 = Inr (arm, mse_ests)
    \<and> arm \<in> set (sr_B st)
    \<and> py_min (map snd (active_items vals (sr_B st))) = Inr (mse_ests ! arm)
    \<and> (\<exists>j \<in> set (sr_B st). mse_ests ! arm = vals ! j)
    \<and> (\<forall>j \<in> set (sr_B st). \<not> fl_less (vals ! j) (mse_ests ! arm))"
proof -
  have b: "sr_K2 (num_arms (demo_bandit 3)) \<le> real_of_int 30" by (simp add: sr_K2_def)
  have K: "2 \<le> num_arms (demo_bandit 3)" by simp
  have n: "(3::nat) - 2 = 1" "(3::nat) - 1 = 2" by simp_all
  show ?thesis
    using successive_rejects_winner_min [OF demo_bandit_wf b K, of exact_arith 0, unfolded num_arms_demo]
    unfolding n .
qed

lemma sr_frozen:
  assumes wf: "well_formed_source bandit"
    and budget: "sr_K2 (num_arms bandit) \<le> real_of_int trials"
    and start: "sr_after fp bandit g trials k0 = Inr st0" "r \<notin> set (sr_B st0)"
      "sr_mse_ests st0 ! r = v"
    and j: "k0 \<le> j" "j \<le> num_arms bandit - 1"
  shows "\<exists>stj. sr_after fp bandit g trials j = Inr stj \<and> r \<notin> set (sr_B stj)
           \<and> sr_mse_ests stj ! r = v"
  using j
proof (induction j rule: dec_induct)
  case base
  then show ?case using start by simp
next
  case (step j)
  then have jk: "j < num_arms bandit - 1" by simp
  from step.IH obtain stj where
    cur: "sr_after fp bandit g trials j = Inr stj" "r \<notin> set (sr_B stj)" "sr_mse_ests stj ! r = v"
    using jk by auto
  from sr_step [OF wf budget jk, of fp g] obtain st st' r' vals where
    s: "sr_after fp bandit g trials j = Inr st" "sr_after fp bandit g trials (Suc j) = Inr st'"
      "r' \<in> set (sr_B st)" "sr_B st' = removeAll r' (sr_B st)"
      "sr_mse_ests st' = (sr_mse_ests st)[r' := vals ! r']" by blast
  have st: "st = stj" using cur(1) s(1) by simp
  have "r' \<noteq> r" using s(3) cur(2) st by auto
  then have "sr_mse_ests st' ! r = v" using s(5) cur(3) st by simp
  moreover have "r \<notin> set (sr_B st')" using s(4) cur(2) st by simp
  ultimately show ?case using s(2) by simp
qed

text \<open>
  C7. With a budget of at least \<open>K(K-1)/2\<close> and a well-formed source, let \<open>r\<close> be the arm
  rejected in phase \<open>k + 1\<close> and \<open>vals\<close> the estimates of that phase. The phase writes
  \<open>vals ! r\<close> to the entry \<open>r\<close> of the output vector and takes \<open>r\<close> out of \<open>B\<close>. In every
  later state \<open>r\<close> is still outside \<open>B\<close> and its entry still holds \<open>vals ! r\<close>; every later
  phase writes one entry only, that of an arm other than \<open>r\<close>; the winning arm is not
  \<open>r\<close>, and the returned vector holds \<open>vals ! r\<close> at \<open>r\<close>.
\<close>

theorem successive_rejects_frozen:
  assumes wf: "well_formed_source bandit"
    and budget: "sr_K2 (num_arms bandit) \<le> real_of_int trials"
    and k: "k < num_arms bandit - 1"
  shows "\<exists>st st' r vals arm mse_ests.
      sr_after fp bandit g trials k = Inr st \<and> sr_after fp bandit g trials (Suc k) = Inr st'
    \<and> sr_mse_vals st' = Some vals
    \<and> py_max_key (active_items vals (sr_B st)) = Inr (r, vals ! r)
    \<and> r \<in> set (sr_B st) \<and> r \<notin> set (sr_B st')
    \<and> sr_mse_ests st' = (sr_mse_ests st)[r := vals ! r]
    \<and> (\<forall>j. Suc k \<le> j \<and> j \<le> num_arms bandit - 1 \<longrightarrow>
          (\<exists>stj. sr_after fp bandit g trials j = Inr stj \<and> r \<notin> set (sr_B stj)
                 \<and> sr_mse_ests stj ! r = vals ! r))
    \<and> (\<forall>j. Suc k \<le> j \<and> j < num_arms bandit - 1 \<longrightarrow>
          (\<exists>stj stj' r' v. sr_after fp bandit g trials j = Inr stj
                 \<and> sr_after fp bandit g trials (Suc j) = Inr stj'
                 \<and> r' \<noteq> r \<and> sr_mse_ests stj' = (sr_mse_ests stj)[r' := v]))
    \<and> successive_rejects fp bandit g trials = Inr (arm, mse_ests)
    \<and> arm \<noteq> r \<and> mse_ests ! r = vals ! r"
proof -
  let ?K = "num_arms bandit"
  have K: "2 \<le> ?K" using k by simp
  from sr_step [OF wf budget k, of fp g] obtain st st' r vals where
    a: "sr_after fp bandit g trials k = Inr st" "sr_after fp bandit g trials (Suc k) = Inr st'"
    and inv: "sr_inv ?K st"
    and r: "r \<in> set (sr_B st)" "sr_B st' = removeAll r (sr_B st)"
    and vals: "sr_mse_vals st' = Some vals"
    and mx: "py_max_key (active_items vals (sr_B st)) = Inr (r, vals ! r)"
    and w: "sr_mse_ests st' = (sr_mse_ests st)[r := vals ! r]" by blast
  have out: "r \<notin> set (sr_B st')" using r(2) by simp
  have "r < length (sr_mse_ests st)" using inv r(1) by (simp add: sr_inv_def list_all_iff)
  then have val: "sr_mse_ests st' ! r = vals ! r" using w by simp
  note frozen = sr_frozen [OF wf budget a(2) out val]
  have later: "\<forall>j. Suc k \<le> j \<and> j \<le> ?K - 1 \<longrightarrow>
          (\<exists>stj. sr_after fp bandit g trials j = Inr stj \<and> r \<notin> set (sr_B stj)
                 \<and> sr_mse_ests stj ! r = vals ! r)"
    using frozen by blast
  have writes: "\<forall>j. Suc k \<le> j \<and> j < ?K - 1 \<longrightarrow>
          (\<exists>stj stj' r' v. sr_after fp bandit g trials j = Inr stj
                 \<and> sr_after fp bandit g trials (Suc j) = Inr stj'
                 \<and> r' \<noteq> r \<and> sr_mse_ests stj' = (sr_mse_ests stj)[r' := v])"
  proof (intro allI impI)
    fix j assume j: "Suc k \<le> j \<and> j < ?K - 1"
    then have jk: "j < ?K - 1" and jle: "j \<le> ?K - 1" by simp_all
    from frozen [OF conjunct1 [OF j] jle] obtain stj where
      f: "sr_after fp bandit g trials j = Inr stj" "r \<notin> set (sr_B stj)" by blast
    from sr_step [OF wf budget jk, of fp g] obtain st2 st2' r' vals' where
      s: "sr_after fp bandit g trials j = Inr st2" "sr_after fp bandit g trials (Suc j) = Inr st2'"
        "r' \<in> set (sr_B st2)" "sr_mse_ests st2' = (sr_mse_ests st2)[r' := vals' ! r']" by blast
    have "st2 = stj" using f(1) s(1) by simp
    then have "r' \<noteq> r" using s(3) f(2) by auto
    then show "\<exists>stj stj' r' v. sr_after fp bandit g trials j = Inr stj
                 \<and> sr_after fp bandit g trials (Suc j) = Inr stj'
                 \<and> r' \<noteq> r \<and> sr_mse_ests stj' = (sr_mse_ests stj)[r' := v]"
      using s by blast
  qed
  from sr_last [OF wf budget K, of fp g] obtain stl arm m where
    l: "sr_after fp bandit g trials (?K - 1) = Inr stl" "sr_B stl = [arm]"
      "successive_rejects fp bandit g trials = Inr (arm, (sr_mse_ests stl)[arm := m])" by blast
  have "Suc k \<le> ?K - 1" using k by simp
  from frozen [OF this] l(1) have fl: "r \<notin> set (sr_B stl)" "sr_mse_ests stl ! r = vals ! r"
    by auto
  have ne: "arm \<noteq> r" using fl(1) l(2) by auto
  then have "(sr_mse_ests stl)[arm := m] ! r = vals ! r" using fl(2) by simp
  then show ?thesis
    using a vals mx r(1) out w later writes l(3) ne
    by (intro exI [of _ st] exI [of _ st'] exI [of _ r] exI [of _ vals] exI [of _ arm]
        exI [of _ "(sr_mse_ests stl)[arm := m]"]) (intro conjI; assumption)
qed

theorem successive_rejects_frozen_witness:
  "\<exists>st st' r vals arm mse_ests.
      sr_after exact_arith (demo_bandit 3) 0 30 0 = Inr st \<and> sr_after exact_arith (demo_bandit 3) 0 30 1 = Inr st'
    \<and> sr_mse_vals st' = Some vals
    \<and> py_max_key (active_items vals (sr_B st)) = Inr (r, vals ! r)
    \<and> r \<in> set (sr_B st) \<and> r \<notin> set (sr_B st')
    \<and> sr_mse_ests st' = (sr_mse_ests st)[r := vals ! r]
    \<and> (\<exists>st2. sr_after exact_arith (demo_bandit 3) 0 30 2 = Inr st2 \<and> r \<notin> set (sr_B st2)
                 \<and> sr_mse_ests st2 ! r = vals ! r)
    \<and> successive_rejects exact_arith (demo_bandit 3) 0 30 = Inr (arm, mse_ests)
    \<and> arm \<noteq> r \<and> mse_ests ! r = vals ! r"
proof -
  have b: "sr_K2 (num_arms (demo_bandit 3)) \<le> real_of_int 30" by (simp add: sr_K2_def)
  have k: "0 < num_arms (demo_bandit 3) - 1" by simp
  have n: "(3::nat) - 1 = 2" "Suc 0 = 1" by simp_all
  from successive_rejects_frozen [OF demo_bandit_wf b k, of exact_arith 0, unfolded num_arms_demo n]
  obtain st st' r vals arm mse_ests where
    f: "sr_after exact_arith (demo_bandit 3) 0 30 0 = Inr st" "sr_after exact_arith (demo_bandit 3) 0 30 1 = Inr st'"
      "sr_mse_vals st' = Some vals"
      "py_max_key (active_items vals (sr_B st)) = Inr (r, vals ! r)"
      "r \<in> set (sr_B st)" "r \<notin> set (sr_B st')"
      "sr_mse_ests st' = (sr_mse_ests st)[r := vals ! r]"
      "\<forall>j. 1 \<le> j \<and> j \<le> 2 \<longrightarrow>
          (\<exists>stj. sr_after exact_arith (demo_bandit 3) 0 30 j = Inr stj \<and> r \<notin> set (sr_B stj)
                 \<and> sr_mse_ests stj ! r = vals ! r)"
      "successive_rejects exact_arith (demo_bandit 3) 0 30 = Inr (arm, mse_ests)"
      "arm \<noteq> r" "mse_ests ! r = vals ! r" by blast
  have "\<exists>st2. sr_after exact_arith (demo_bandit 3) 0 30 2 = Inr st2 \<and> r \<notin> set (sr_B st2)
                 \<and> sr_mse_ests st2 ! r = vals ! r"
    using f(8) [rule_format, of 2] by simp
  then show ?thesis using f(1-7,9-11) by blast
qed

section \<open>The uniform allocator\<close>

lemma np_before_irrefl [simp]: "\<not> np_before a a"
  by (cases a) (simp_all add: np_before_def)

lemma np_before_asym: "np_before a b \<Longrightarrow> \<not> np_before b a"
  by (cases a; cases b) (simp_all add: np_before_def)

lemma np_before_shift: "np_before a b \<Longrightarrow> \<not> np_before c b \<Longrightarrow> np_before a c"
  by (cases a; cases b; cases c) (simp_all add: np_before_def)

lemma argmin_from_first_min:
  assumes "length pre = i" "bi < i" "pre ! bi = bv"
    and "\<forall>j<i. \<not> np_before (pre ! j) bv" and "\<forall>j<bi. np_before bv (pre ! j)"
  shows "argmin_from bi bv i vs < length (pre @ vs)
    \<and> (\<forall>j<length (pre @ vs). \<not> np_before ((pre @ vs) ! j) ((pre @ vs) ! argmin_from bi bv i vs))
    \<and> (\<forall>j<argmin_from bi bv i vs. np_before ((pre @ vs) ! argmin_from bi bv i vs) ((pre @ vs) ! j))"
  using assms
proof (induction vs arbitrary: pre i bi bv)
  case Nil
  then show ?case by simp
next
  case (Cons v vs)
  let ?pre = "pre @ [v]"
  have app: "pre @ v # vs = ?pre @ vs" by simp
  have len: "length ?pre = Suc i" using Cons.prems(1) by simp
  show ?case
  proof (cases "np_before v bv")
    case True
    have 1: "i < Suc i" by simp
    have 2: "?pre ! i = v" using Cons.prems(1) by auto
    have 3: "\<forall>j<Suc i. \<not> np_before (?pre ! j) v"
    proof (intro allI impI)
      fix j assume j: "j < Suc i"
      show "\<not> np_before (?pre ! j) v"
      proof (cases "j = i")
        case True
        then show ?thesis using 2 by simp
      next
        case False
        then have ji: "j < i" using j by simp
        then have "\<not> np_before (pre ! j) bv" using Cons.prems(4) by simp
        with True have "np_before v (pre ! j)" by (rule np_before_shift)
        then show ?thesis using ji Cons.prems(1) by (simp add: nth_append np_before_asym)
      qed
    qed
    have 4: "\<forall>j<i. np_before v (?pre ! j)"
    proof (intro allI impI)
      fix j assume ji: "j < i"
      then have "\<not> np_before (pre ! j) bv" using Cons.prems(4) by simp
      with True have "np_before v (pre ! j)" by (rule np_before_shift)
      then show "np_before v (?pre ! j)" using ji Cons.prems(1) by (simp add: nth_append)
    qed
    from Cons.IH [OF len 1 2 3 4] show ?thesis using True unfolding app by simp
  next
    case False
    have 1: "bi < Suc i" using Cons.prems(2) by simp
    have 2: "?pre ! bi = bv" using Cons.prems(1,2,3) by (simp add: nth_append)
    have 3: "\<forall>j<Suc i. \<not> np_before (?pre ! j) bv"
      using Cons.prems(1,4) False by (auto simp: nth_append less_Suc_eq)
    have 4: "\<forall>j<bi. np_before bv (?pre ! j)"
      using Cons.prems(1,2,5) by (auto simp: nth_append)
    from Cons.IH [OF len 1 2 3 4] show ?thesis using False unfolding app by simp
  qed
qed

lemma np_argmin_first_min:
  assumes "vs \<noteq> []"
  shows "\<exists>a. np_argmin vs = Inr a \<and> a < length vs
    \<and> (\<forall>j<length vs. \<not> np_before (vs ! j) (vs ! a))
    \<and> (\<forall>j<a. np_before (vs ! a) (vs ! j))"
proof -
  obtain v rest where vs: "vs = v # rest" using assms by (cases vs) auto
  have "argmin_from 0 v 1 rest < length ([v] @ rest)
    \<and> (\<forall>j<length ([v] @ rest). \<not> np_before (([v] @ rest) ! j) (([v] @ rest) ! argmin_from 0 v 1 rest))
    \<and> (\<forall>j<argmin_from 0 v 1 rest. np_before (([v] @ rest) ! argmin_from 0 v 1 rest) (([v] @ rest) ! j))"
    by (rule argmin_from_first_min) simp_all
  then show ?thesis by (simp add: np_argmin_def vs)
qed

lemma dict_set_fresh: "k \<notin> fst ` set d \<Longrightarrow> dict_set k v d = d @ [(k, v)]"
  by (induction d) auto

lemma uniform_loop_ok:
  assumes wf: "well_formed_source bandit" and n: "0 < n"
    and ps: "list_all (\<lambda>p. fst p < snd p \<and> snd p < num_arms bandit) ps"
    and dist: "distinct (map fst d @ ps)"
    and lens: "list_all (\<lambda>e. length (snd e) = nat n) d"
  shows "\<exists>d' g'. uniform_loop bandit n ps d g = Inr (d', g') \<and> map fst d' = map fst d @ ps
           \<and> list_all (\<lambda>e. length (snd e) = nat n) d'"
  using ps dist lens
proof (induction ps arbitrary: d g)
  case Nil
  then show ?case by simp
next
  case (Cons p ps)
  from Cons.prems(1) have p: "fst p < num_arms bandit" "snd p < num_arms bandit"
    and rest: "list_all (\<lambda>p. fst p < snd p \<and> snd p < num_arms bandit) ps" by auto
  from sample_arms_ok [OF wf n p] obtain xs g' where
    s: "sample_arms bandit g p n = Inr (xs, g')" "length xs = nat n" by blast
  have fresh: "p \<notin> fst ` set d" using Cons.prems(2) by auto
  let ?d = "dict_set p xs d"
  have d: "?d = d @ [(p, xs)]" using fresh by (rule dict_set_fresh)
  have 1: "distinct (map fst ?d @ ps)" using Cons.prems(2) by (simp add: d)
  have 2: "list_all (\<lambda>e. length (snd e) = nat n) ?d" using Cons.prems(3) s(2) by (simp add: d)
  from Cons.IH [OF rest 1 2, of g'] show ?case using s(1) by (simp add: d)
qed

lemma distinct_pairs_concat:
  "distinct is \<Longrightarrow> (\<And>i. distinct (f i)) \<Longrightarrow>
   distinct (concat (map (\<lambda>i. map (\<lambda>j. (i, j)) (f i)) is))"
proof (induction "is")
  case Nil
  then show ?case by simp
next
  case (Cons i "is")
  have "distinct (map (\<lambda>j. (i, j)) (f i))" using Cons.prems(2) by (simp add: distinct_map inj_on_def)
  moreover have "distinct (concat (map (\<lambda>i. map (\<lambda>j. (i, j)) (f i)) is))"
    using Cons by simp
  moreover have "set (map (\<lambda>j. (i, j)) (f i)) \<inter> set (concat (map (\<lambda>i. map (\<lambda>j. (i, j)) (f i)) is)) = {}"
    using Cons.prems(1) by auto
  ultimately show ?case by simp
qed

lemma distinct_all_pairs: "distinct (all_pairs K)"
  unfolding all_pairs_def by (rule distinct_pairs_concat) simp_all

lemma length_all_pairs: "length (all_pairs K) = K * (K - 1) div 2"
proof -
  have "length (all_pairs K) = (\<Sum>i<K. K - Suc i)"
    by (simp add: all_pairs_def length_concat comp_def sum_list_upt_sum atLeast0LessThan)
  also have "\<dots> = (\<Sum>i<K. i)" by (rule sum.nat_diff_reindex)
  also have "\<dots> = K * (K - 1) div 2"
  proof (cases K)
    case 0
    then show ?thesis by simp
  next
    case (Suc m)
    have "\<Sum> {..<Suc m} = \<Sum> {0..m}" by (simp add: lessThan_Suc_atMost atMost_atLeast0)
    then show ?thesis by (simp add: Suc gauss_sum_nat mult.commute)
  qed
  finally show ?thesis .
qed


text \<open>
  C5 (as amended). With at least two arms, a budget of at least \<open>K(K-1)/2\<close> and a
  well-formed source, the uniform allocator computes \<open>n = \<lfloor>2 * budget / (K(K-1))\<rfloor> \<ge> 1\<close>,
  fills the dict with one batch of exactly \<open>n\<close> joint samples for each of the
  \<open>K(K-1)/2\<close> pairs, and returns the estimates of that dict together with their
  \<^verbatim>\<open>np.argmin\<close>: an arm that no arm comes before, and that comes before every arm of lower
  index. (\<open>np_before\<close> is \<open><\<close> on numbers, with NaN before every number.)
\<close>

theorem uniform_sampling_result:
  assumes wf: "well_formed_source bandit"
    and K: "2 \<le> num_arms bandit"
    and budget: "int (num_arms bandit) * (int (num_arms bandit) - 1) \<le> 2 * trials"
  shows "\<exists>n d g' mse_vals arm.
      uniform_n (num_arms bandit) trials = Inr n
    \<and> n = (2 * trials) div (int (num_arms bandit) * (int (num_arms bandit) - 1)) \<and> 0 < n
    \<and> uniform_dict bandit g trials = Inr (d, g')
    \<and> map fst d = all_pairs (num_arms bandit)
    \<and> length d = num_arms bandit * (num_arms bandit - 1) div 2
    \<and> list_all (\<lambda>e. length (snd e) = nat n) d
    \<and> mse d (num_arms bandit) = Inr mse_vals \<and> length mse_vals = num_arms bandit
    \<and> uniform_sampling bandit g trials = Inr (arm, mse_vals)
    \<and> arm < num_arms bandit
    \<and> (\<forall>j < num_arms bandit. \<not> np_before (mse_vals ! j) (mse_vals ! arm))
    \<and> (\<forall>j < arm. np_before (mse_vals ! arm) (mse_vals ! j))"
proof -
  let ?K = "num_arms bandit"
  let ?n = "(2 * trials) div (int ?K * (int ?K - 1))"
  have pos: "0 < int ?K * (int ?K - 1)" using K by simp
  then have "int ?K * (int ?K - 1) \<noteq> 0" by linarith
  then have un: "uniform_n ?K trials = Inr ?n" unfolding uniform_n_def by (simp only: if_False)
  have n: "0 < ?n" using pos budget by (simp add: pos_imp_zdiv_pos_iff)
  have ps: "list_all (\<lambda>p. fst p < snd p \<and> snd p < ?K) (all_pairs ?K)"
    by (auto simp: list_all_iff set_all_pairs)
  have dist: "distinct (map fst ([] :: (pair \<times> batch) list) @ all_pairs ?K)"
    using distinct_all_pairs by simp
  from uniform_loop_ok [OF wf n ps dist, of g] obtain d g' where
    d: "uniform_loop bandit ?n (all_pairs ?K) [] g = Inr (d, g')" "map fst d = all_pairs ?K"
      "list_all (\<lambda>e. length (snd e) = nat ?n) d" by auto
  have ud: "uniform_dict bandit g trials = Inr (d, g')" using un d(1) by (simp add: uniform_dict_def)
  have "length (map fst d) = length (all_pairs ?K)" using d(2) by simp
  then have len: "length d = ?K * (?K - 1) div 2" by (simp add: length_all_pairs)
  have keys: "pair_keys ?K d"
    unfolding pair_keys_def using d(2) distinct_all_pairs ps
    by (simp add: list_all_iff) (metis (no_types, lifting) image_eqI list.set_map)
  from mse_ok [OF keys] obtain vals where v: "mse d ?K = Inr vals" "length vals = ?K" by blast
  have "vals \<noteq> []" using v(2) K by auto
  from np_argmin_first_min [OF this] obtain arm where
    a: "np_argmin vals = Inr arm" "arm < length vals"
      "\<forall>j<length vals. \<not> np_before (vals ! j) (vals ! arm)"
      "\<forall>j<arm. np_before (vals ! arm) (vals ! j)" by blast
  have "uniform_sampling bandit g trials = Inr (arm, vals)"
    by (simp add: uniform_sampling_def ud v(1) a(1))
  then show ?thesis using un n ud d(2,3) len v a(2,3,4)
    by (intro exI [of _ ?n] exI [of _ d] exI [of _ g'] exI [of _ vals] exI [of _ arm]) simp
qed

theorem uniform_sampling_result_witness:
  "\<exists>d g' mse_vals arm.
      uniform_n 3 9 = Inr 3
    \<and> uniform_dict (demo_bandit 3) 0 9 = Inr (d, g')
    \<and> map fst d = [(0, 1), (0, 2), (1, 2)]
    \<and> list_all (\<lambda>e. length (snd e) = 3) d
    \<and> mse d 3 = Inr mse_vals \<and> length mse_vals = 3
    \<and> uniform_sampling (demo_bandit 3) 0 9 = Inr (arm, mse_vals)
    \<and> arm < 3
    \<and> (\<forall>j < 3. \<not> np_before (mse_vals ! j) (mse_vals ! arm))
    \<and> (\<forall>j < arm. np_before (mse_vals ! arm) (mse_vals ! j))"
proof -
  have K: "2 \<le> num_arms (demo_bandit 3)" by simp
  have b: "int (num_arms (demo_bandit 3)) * (int (num_arms (demo_bandit 3)) - 1) \<le> 2 * 9" by simp
  have ap: "all_pairs 3 = [(0, 1), (0, 2), (1, 2)]"
    by (simp add: all_pairs_def upt_rec numeral_3_eq_3)
  have n: "(2 * 9) div (int 3 * (int 3 - 1)) = (3::int)" "nat 3 = 3" by simp_all
  from uniform_sampling_result [OF demo_bandit_wf K b, of 0, unfolded num_arms_demo ap n]
  obtain n d g' mse_vals arm where
    "uniform_n 3 9 = Inr n" "n = 3"
    "uniform_dict (demo_bandit 3) 0 9 = Inr (d, g')"
    "map fst d = [(0, 1), (0, 2), (1, 2)]"
    "list_all (\<lambda>e. length (snd e) = nat n) d"
    "mse d 3 = Inr mse_vals" "length mse_vals = 3"
    "uniform_sampling (demo_bandit 3) 0 9 = Inr (arm, mse_vals)"
    "arm < 3"
    "\<forall>j<3. \<not> np_before (mse_vals ! j) (mse_vals ! arm)"
    "\<forall>j<arm. np_before (mse_vals ! arm) (mse_vals ! j)"
    by (elim exE conjE) (rule that; assumption)
  then show ?thesis
    by (intro exI [of _ d] exI [of _ g'] exI [of _ mse_vals] exI [of _ arm]) simp
qed

text \<open>
  C5 as the specification states it, for every model and every budget, fails: with a
  single arm the floor division divides by zero, and with two arms and budget 0 the
  request for zero samples fails in the sampler's reshape. Neither run returns an arm.
\<close>

theorem uniform_sampling_counterexample:
  "uniform_sampling (demo_bandit 1) 0 10 = Inl ZeroDivisionError
   \<and> uniform_sampling (demo_bandit 2) 0 0 = Inl ValueError"
  by (simp add: uniform_sampling_def uniform_dict_def uniform_n_def all_pairs_def
      sample_arms_def demo_bandit_def np_reshape_def upt_rec numeral_2_eq_2)

section \<open>Phases that draw nothing, and the uniform allocator below one sample per pair\<close>

lemma sr_sample_loop_zero: "sr_sample_loop bandit 0 A d g = Inr (d, g)"
  by (cases A) simp_all

lemma mse_empty: "mse [] n = Inr (replicate n 0)"
proof -
  have "pair_keys n []" by (simp add: pair_keys_def)
  from mse_cells [OF this] show ?thesis
    by (simp add: stat_cell_def map_replicate_const)
qed

lemma sr_phase_noop:
  assumes j: "j < num_arms bandit"
    and B: "sr_B st = [j..<num_arms bandit]"
    and d: "sr_arms_dict st = []"
    and e: "sr_mse_ests st = replicate (num_arms bandit) 0"
  shows "\<exists>st'. sr_phase bandit 0 st = Inr st' \<and> sr_B st' = [Suc j..<num_arms bandit]
           \<and> sr_arms_dict st' = [] \<and> sr_mse_ests st' = replicate (num_arms bandit) 0
           \<and> sr_min_mse st' = Some 0
           \<and> sr_A st' = filter (\<lambda>p. fst p \<in> set [Suc j..<num_arms bandit]
                                      \<or> snd p \<in> set [Suc j..<num_arms bandit]) (sr_A st)"
proof -
  let ?K = "num_arms bandit"
  let ?vals = "replicate ?K (0::fl)"
  have jB: "j \<in> set (sr_B st)" using j B by simp
  have jl: "j < length ?vals" using j by simp
  have mx: "\<forall>i \<in> set (sr_B st). i < length ?vals \<longrightarrow> fl_le (?vals ! i) (?vals ! j)"
    using j by (simp add: zero_fl_def)
  from py_max_key_lowest [OF jB jl mx] obtain r where
    r: "py_max_key (active_items ?vals (sr_B st)) = Inr (r, ?vals ! j)"
      "r \<in> set (sr_B st)" "r \<le> j" by blast
  have "r = j" using r(2,3) B by simp
  then have mxr: "py_max_key (active_items ?vals (sr_B st)) = Inr (j, 0)" using r(1) j by simp
  from py_min_ok [OF jB jl] obtain m where
    m: "py_min (map snd (active_items ?vals (sr_B st))) = Inr m"
      "\<exists>i \<in> set (sr_B st). i < length ?vals \<and> m = ?vals ! i" by blast
  have m0: "m = 0" using m(2) by auto
  have vs: "vec_set (sr_mse_ests st) j 0 = Inr ?vals"
    using j by (simp add: vec_set_def e list_update_same_conv)
  have rm: "removeAll j [j..<?K] = [Suc j..<?K]"
    using j by (simp add: upt_conv_Cons)
  have keep: "(j \<le> x \<and> x < ?K \<and> x \<noteq> j) = (Suc j \<le> x \<and> x < ?K)" for x by auto
  show ?thesis
    using mxr [unfolded B] m(1) [unfolded B m0]
    by (simp add: sr_phase_def sr_sample_loop_zero d mse_empty vs Let_def B rm keep)
qed

lemma sample_arms_zero:
  "sample_arms bandit g p 0 = Inl SourceError \<or> sample_arms bandit g p 0 = Inl ValueError"
  by (cases "sample_distr bandit g 0") (auto simp: sample_arms_def np_reshape_def)

lemma all_pairs_first: "2 \<le> K \<Longrightarrow> \<exists>rest. all_pairs K = (0, 1) # rest"
proof -
  assume K: "2 \<le> K"
  then have "[0..<K] = 0 # [Suc 0..<K]" "[Suc 0..<K] = Suc 0 # [Suc (Suc 0)..<K]"
    by (simp_all add: upt_conv_Cons)
  then show ?thesis by (simp add: all_pairs_def)
qed

lemma uniform_zero_samples:
  assumes K: "2 \<le> num_arms bandit" and lo: "0 \<le> trials"
    and hi: "2 * trials < int (num_arms bandit) * (int (num_arms bandit) - 1)"
  shows "uniform_n (num_arms bandit) trials = Inr 0"
    and "uniform_sampling bandit g trials = Inl SourceError
       \<or> uniform_sampling bandit g trials = Inl ValueError"
proof -
  let ?K = "num_arms bandit"
  have "int ?K * (int ?K - 1) \<noteq> 0" using hi lo by linarith
  moreover have "(2 * trials) div (int ?K * (int ?K - 1)) = 0" using hi lo by simp
  ultimately show n: "uniform_n ?K trials = Inr 0" by (simp add: uniform_n_def)
  obtain rest where ap: "all_pairs ?K = (0, 1) # rest" using all_pairs_first [OF K] by blast
  have "uniform_dict bandit g trials
      = ebind (sample_arms bandit g (0, 1) 0) (\<lambda>(xs, g').
          uniform_loop bandit 0 rest (dict_set (0, 1) xs []) g')"
    by (simp add: uniform_dict_def n ap)
  then have "uniform_dict bandit g trials = Inl SourceError
      \<or> uniform_dict bandit g trials = Inl ValueError"
    using sample_arms_zero [of bandit g "(0, 1)"] by auto
  then show "uniform_sampling bandit g trials = Inl SourceError
       \<or> uniform_sampling bandit g trials = Inl ValueError"
    by (auto simp: uniform_sampling_def)
qed

text \<open>
  C9 (as amended). The uniform allocator has no budget check. With at least two arms
  and a budget from 0 to below \<open>K(K-1)/2\<close> it computes \<open>n = 0\<close> and goes on to ask the
  source for zero samples of the first pair; the run stops there, in the sampler, with
  the source's own exception or with the \<open>ValueError\<close> of reshaping to zero rows, and
  not with \<open>InvalidBudget\<close>.
\<close>

theorem uniform_sampling_small_budget:
  assumes "2 \<le> num_arms bandit" and "0 \<le> trials"
    and "2 * trials < int (num_arms bandit) * (int (num_arms bandit) - 1)"
  shows "uniform_n (num_arms bandit) trials = Inr 0
    \<and> (uniform_sampling bandit g trials = Inl SourceError
       \<or> uniform_sampling bandit g trials = Inl ValueError)
    \<and> uniform_sampling bandit g trials \<noteq> Inl InvalidBudget"
  using uniform_zero_samples(1) [OF assms] uniform_zero_samples(2) [OF assms, of g] by auto

theorem uniform_sampling_small_budget_witness:
  "uniform_n 4 3 = Inr 0
    \<and> (uniform_sampling (demo_bandit 4) 0 3 = Inl SourceError
       \<or> uniform_sampling (demo_bandit 4) 0 3 = Inl ValueError)
    \<and> uniform_sampling (demo_bandit 4) 0 3 \<noteq> Inl InvalidBudget"
proof -
  have 1: "2 \<le> num_arms (demo_bandit 4)" by simp
  have 2: "(0::int) \<le> 3" by simp
  have 3: "2 * 3 < int (num_arms (demo_bandit 4)) * (int (num_arms (demo_bandit 4)) - 1)" by simp
  show ?thesis
    using uniform_sampling_small_budget [OF 1 2 3, of 0] by simp
qed

text \<open>
  C9 as the specification states it fails for three arms and a budget of 2, below
  \<open>K(K-1)/2 = 3\<close>: the per-pair count is 0 and the run ends with \<open>ValueError\<close>, raised by
  the reshape of the zero samples drawn for the pair \<open>(0, 1)\<close>.
\<close>

theorem uniform_sampling_budget_counterexample:
  "uniform_n 3 2 = Inr 0
   \<and> uniform_sampling (demo_bandit 3) 0 2 = Inl ValueError
   \<and> uniform_sampling (demo_bandit 3) 0 2 \<noteq> Inl InvalidBudget"
  by (simp add: uniform_sampling_def uniform_dict_def uniform_n_def all_pairs_def
      sample_arms_def demo_bandit_def np_reshape_def upt_rec numeral_3_eq_3)

section \<open>The arm a phase eliminates\<close>

lemma max_from_nan_best: "snd best = NaN \<Longrightarrow> max_from best xs = best"
  by (induction xs) (simp_all add: fl_less_def)

lemma max_from_skip_nan:
  "snd best \<noteq> NaN \<Longrightarrow> max_from best xs = max_from best (filter (\<lambda>x. snd x \<noteq> NaN) xs)"
proof (induction xs arbitrary: best)
  case Nil
  then show ?case by simp
next
  case (Cons x xs)
  show ?case
  proof (cases "snd x = NaN")
    case True
    then have "\<not> fl_less (snd best) (snd x)" by (cases "snd best") (simp_all add: fl_less_def)
    then show ?thesis using True Cons by simp
  next
    case False
    then show ?thesis using Cons by simp
  qed
qed

lemma py_max_key_general:
  assumes res: "py_max_key (active_items vals B) = Inr (r, v)"
  shows "r \<in> set B \<and> r < length vals \<and> v = vals ! r
    \<and> (\<forall>j \<in> set B. j < length vals \<and> r < j \<longrightarrow> \<not> fl_less (vals ! r) (vals ! j))
    \<and> (\<forall>j \<in> set B. j < length vals \<and> j < r \<longrightarrow> fl_less (vals ! j) (vals ! r) \<or> vals ! j = NaN)
    \<and> (vals ! r = NaN \<longrightarrow> (\<forall>j \<in> set B. j < length vals \<longrightarrow> r \<le> j))
    \<and> (\<forall>f \<in> set B. f < length vals \<and> vals ! f = NaN
          \<and> (\<forall>j \<in> set B. j < length vals \<longrightarrow> f \<le> j) \<longrightarrow> r = f)"
proof -
  let ?items = "active_items vals B"
  obtain x xs where items: "?items = x # xs" and rv: "(r, v) = max_from x xs"
    using res by (cases ?items) (auto simp: py_max_key_def)
  have mem_iff: "\<And>j w. (j, w) \<in> set ?items \<longleftrightarrow> j < length vals \<and> j \<in> set B \<and> w = vals ! j"
    by (auto simp: set_active_items)
  have "(r, v) \<in> set ?items" using max_from_mem [of x xs] rv by (simp add: items)
  then have r: "r \<in> set B" "r < length vals" "v = vals ! r" by (simp_all add: mem_iff)
  have sorted: "sorted_wrt (\<lambda>a b. fst a < fst b) (x # xs)"
    using active_items_sorted [of vals B] by (simp add: items sorted_wrt_map)
  have x: "fst x \<in> set B" "fst x < length vals" "snd x = vals ! fst x"
    using mem_iff [of "fst x" "snd x"] by (simp_all add: items)
  have first: "fst x \<le> j" if "j \<in> set B" "j < length vals" for j
  proof -
    have "(j, vals ! j) \<in> set (x # xs)" using that mem_iff by (simp flip: items)
    then show ?thesis using sorted by (auto simp: less_imp_le)
  qed
  show ?thesis
  proof (cases "snd x = NaN")
    case True
    then have "max_from x xs = x" by (rule max_from_nan_best)
    then have rx: "r = fst x" "vals ! r = NaN" using rv True x(3) by (auto simp: prod_eq_iff)
    have 1: "\<forall>j \<in> set B. j < length vals \<and> r < j \<longrightarrow> \<not> fl_less (vals ! r) (vals ! j)"
      by (simp add: rx(2) fl_less_def)
    have 3: "\<forall>j \<in> set B. j < length vals \<longrightarrow> r \<le> j" using first rx(1) by simp
    have 2: "\<forall>j \<in> set B. j < length vals \<and> j < r \<longrightarrow> fl_less (vals ! j) (vals ! r) \<or> vals ! j = NaN"
    proof (intro ballI impI)
      fix j assume "j \<in> set B" "j < length vals \<and> j < r"
      then have "r \<le> j" "j < r" using 3 by simp_all
      then show "fl_less (vals ! j) (vals ! r) \<or> vals ! j = NaN" by simp
    qed
    have 4: "\<forall>f \<in> set B. f < length vals \<and> vals ! f = NaN
          \<and> (\<forall>j \<in> set B. j < length vals \<longrightarrow> f \<le> j) \<longrightarrow> r = f"
    proof (intro ballI impI)
      fix f assume f: "f \<in> set B" "f < length vals \<and> vals ! f = NaN
          \<and> (\<forall>j \<in> set B. j < length vals \<longrightarrow> f \<le> j)"
      then have "f \<le> r" using r(1,2) by simp
      moreover have "r \<le> f" using 3 f by simp
      ultimately show "r = f" by simp
    qed
    have n3: "vals ! r = NaN \<longrightarrow> (\<forall>j \<in> set B. j < length vals \<longrightarrow> r \<le> j)"
      using 3 by simp
    show ?thesis by (intro conjI) (rule r(1) r(2) r(3) 1 2 n3 4)+
  next
    case False
    let ?ys = "filter (\<lambda>x. snd x \<noteq> NaN) xs"
    have rv': "(r, v) = max_from x ?ys" using rv max_from_skip_nan [OF False, of xs] by simp
    have fin: "\<forall>y \<in> set (x # ?ys). snd y \<noteq> NaN" using False by simp
    from max_from_split [OF fin] obtain ys zs where
      s: "x # ?ys = ys @ (r, v) # zs"
      and lo: "\<forall>y \<in> set ys. fl_less (snd y) v"
      and hi: "\<forall>z \<in> set zs. fl_le (snd z) v"
      unfolding rv' [symmetric] by auto
    have "sorted_wrt (\<lambda>a b. fst a < fst b) (x # ?ys)"
      using sorted by (auto intro: sorted_wrt_filter)
    then have srt: "sorted_wrt (\<lambda>a b. fst a < fst b) (ys @ (r, v) # zs)" by (simp only: s)
    have before: "\<forall>y \<in> set ys. fst y < r" and after: "\<forall>z \<in> set zs. r < fst z"
      using srt by (auto simp: sorted_wrt_append)
    have vfin: "v \<noteq> NaN"
    proof -
      have "(r, v) \<in> set (x # ?ys)" by (simp add: s)
      then show ?thesis using fin by fastforce
    qed
    have place: "(j, vals ! j) \<in> set ys \<union> {(r, v)} \<union> set zs"
      if "j \<in> set B" "j < length vals" "vals ! j \<noteq> NaN" for j
    proof -
      have "(j, vals ! j) \<in> set (x # xs)" using that mem_iff by (simp flip: items)
      then have "(j, vals ! j) \<in> set (x # ?ys)" using that(3) by auto
      then show ?thesis by (simp add: s)
    qed
    have 1: "\<forall>j \<in> set B. j < length vals \<and> r < j \<longrightarrow> \<not> fl_less (vals ! r) (vals ! j)"
    proof (intro ballI impI)
      fix j assume j: "j \<in> set B" "j < length vals \<and> r < j"
      show "\<not> fl_less (vals ! r) (vals ! j)"
      proof (cases "vals ! j = NaN")
        case True
        then show ?thesis by (cases "vals ! r") (simp_all add: fl_less_def)
      next
        case False
        from place [OF j(1) conjunct1 [OF j(2)] False] before j(2)
        have "(j, vals ! j) \<in> set zs" by fastforce
        then have "fl_le (vals ! j) (vals ! r)" using hi r(3) by fastforce
        then show ?thesis
          by (cases "vals ! j"; cases "vals ! r") (auto simp: fl_le_def fl_less_def)
      qed
    qed
    have 2: "\<forall>j \<in> set B. j < length vals \<and> j < r \<longrightarrow> fl_less (vals ! j) (vals ! r) \<or> vals ! j = NaN"
    proof (intro ballI impI)
      fix j assume j: "j \<in> set B" "j < length vals \<and> j < r"
      show "fl_less (vals ! j) (vals ! r) \<or> vals ! j = NaN"
      proof (cases "vals ! j = NaN")
        case True
        then show ?thesis by simp
      next
        case False
        from place [OF j(1) conjunct1 [OF j(2)] False] after j(2)
        have "(j, vals ! j) \<in> set ys" by fastforce
        then show ?thesis using lo r(3) by fastforce
      qed
    qed
    have 3: "vals ! r \<noteq> NaN" using vfin r(3) by simp
    have 4: "\<forall>f \<in> set B. f < length vals \<and> vals ! f = NaN
          \<and> (\<forall>j \<in> set B. j < length vals \<longrightarrow> f \<le> j) \<longrightarrow> r = f"
    proof (intro ballI impI)
      fix f assume f: "f \<in> set B" "f < length vals \<and> vals ! f = NaN
          \<and> (\<forall>j \<in> set B. j < length vals \<longrightarrow> f \<le> j)"
      then have "f \<le> fst x" using x(1,2) by simp
      moreover have "fst x \<le> f" using first f by simp
      ultimately have "vals ! fst x = NaN" using f(2) by simp
      then show "r = f" using False x(3) by simp
    qed
    have n3: "vals ! r = NaN \<longrightarrow> (\<forall>j \<in> set B. j < length vals \<longrightarrow> r \<le> j)"
      using 3 by simp
    show ?thesis by (intro conjI) (rule r(1) r(2) r(3) 1 2 n3 4)+
  qed
qed


lemma sr_phase_InrD:
  assumes "sr_phase bandit t st = Inr st'"
  shows "\<exists>d g vals r v ests m.
      sr_sample_loop bandit t (sr_A st) (sr_arms_dict st) (sr_gen st) = Inr (d, g)
    \<and> mse d (num_arms bandit) = Inr vals
    \<and> py_max_key (active_items vals (sr_B st)) = Inr (r, v)
    \<and> vec_set (sr_mse_ests st) r v = Inr ests
    \<and> py_min (map snd (active_items vals (sr_B st))) = Inr m
    \<and> st' = \<lparr>sr_B = removeAll r (sr_B st),
               sr_A = filter (\<lambda>p. fst p \<in> set (removeAll r (sr_B st))
                                   \<or> snd p \<in> set (removeAll r (sr_B st))) (sr_A st),
               sr_mse_ests = ests,
               sr_arms_dict = filter (\<lambda>(p, v). fst p \<in> set (removeAll r (sr_B st))
                                   \<or> snd p \<in> set (removeAll r (sr_B st))) d,
               sr_mse_vals = Some vals, sr_min_mse = Some m, sr_gen = g\<rparr>"
proof -
  from assms obtain dg where
    1: "sr_sample_loop bandit t (sr_A st) (sr_arms_dict st) (sr_gen st) = Inr dg"
    unfolding sr_phase_def ebind_eq_Inr by blast
  obtain d g where dg: "dg = (d, g)" by (cases dg) auto
  from assms obtain vals where 2: "mse d (num_arms bandit) = Inr vals"
    unfolding sr_phase_def 1 dg by (auto simp: ebind_eq_Inr)
  from assms obtain rv where 3: "py_max_key (active_items vals (sr_B st)) = Inr rv"
    unfolding sr_phase_def 1 dg by (auto simp: 2 ebind_eq_Inr)
  obtain r v where rv: "rv = (r, v)" by (cases rv) auto
  from assms obtain ests where 4: "vec_set (sr_mse_ests st) r v = Inr ests"
    unfolding sr_phase_def 1 dg by (auto simp: 2 3 rv ebind_eq_Inr)
  from assms obtain m where 5: "py_min (map snd (active_items vals (sr_B st))) = Inr m"
    unfolding sr_phase_def 1 dg by (auto simp: 2 3 rv 4 ebind_eq_Inr)
  from assms have "st' = \<lparr>sr_B = removeAll r (sr_B st),
               sr_A = filter (\<lambda>p. fst p \<in> set (removeAll r (sr_B st))
                                   \<or> snd p \<in> set (removeAll r (sr_B st))) (sr_A st),
               sr_mse_ests = ests,
               sr_arms_dict = filter (\<lambda>(p, v). fst p \<in> set (removeAll r (sr_B st))
                                   \<or> snd p \<in> set (removeAll r (sr_B st))) d,
               sr_mse_vals = Some vals, sr_min_mse = Some m, sr_gen = g\<rparr>"
    unfolding sr_phase_def 1 dg by (simp add: 2 3 rv 4 5 Let_def)
  then show ?thesis using 1 2 3 4 5 unfolding dg rv by blast
qed

lemma sr_phase_set_B:
  assumes run: "sr_phase bandit t st = Inr st'" and B': "set B' = set (sr_B st)"
    and r: "sr_B st' = removeAll r (sr_B st)" "r \<in> set (sr_B st)"
  shows "sr_phase bandit t (st\<lparr>sr_B := B'\<rparr>) = Inr (st'\<lparr>sr_B := removeAll r B'\<rparr>)"
proof -
  from sr_phase_InrD [OF run] obtain d g vals r0 v ests m where
    f: "sr_sample_loop bandit t (sr_A st) (sr_arms_dict st) (sr_gen st) = Inr (d, g)"
      "mse d (num_arms bandit) = Inr vals"
      "py_max_key (active_items vals (sr_B st)) = Inr (r0, v)"
      "vec_set (sr_mse_ests st) r0 v = Inr ests"
      "py_min (map snd (active_items vals (sr_B st))) = Inr m"
    and st': "st' = \<lparr>sr_B = removeAll r0 (sr_B st),
               sr_A = filter (\<lambda>p. fst p \<in> set (removeAll r0 (sr_B st))
                                   \<or> snd p \<in> set (removeAll r0 (sr_B st))) (sr_A st),
               sr_mse_ests = ests,
               sr_arms_dict = filter (\<lambda>(p, v). fst p \<in> set (removeAll r0 (sr_B st))
                                   \<or> snd p \<in> set (removeAll r0 (sr_B st))) d,
               sr_mse_vals = Some vals, sr_min_mse = Some m, sr_gen = g\<rparr>" by blast
  have "removeAll r0 (sr_B st) = removeAll r (sr_B st)" using r(1) st' by simp
  then have "set (sr_B st) - {r0} = set (sr_B st) - {r}" by (metis set_removeAll)
  then have r0: "r0 = r" using r(2) by blast
  have items: "active_items vals B' = active_items vals (sr_B st)"
    using B' by (rule active_items_cong)
  have sets: "set (removeAll r B') = set (removeAll r (sr_B st))" using B' by simp
  show ?thesis
    unfolding st' r0 using f [unfolded r0]
    by (simp add: sr_phase_def items sets Let_def B')
qed


text \<open>
  C10. Every phase that completes computes its estimates \<open>mse_vals\<close>, takes as \<open>reject\<close>
  the result of \<^verbatim>\<open>max\<close> over \<^verbatim>\<open>enumerate(mse_vals)\<close> restricted to \<open>B\<close>, and removes that arm
  from \<open>B\<close>. Whenever an arm \<open>i\<close> of \<open>B\<close> attains the maximum estimate among the arms of \<open>B\<close>,
  the eliminated arm has the same estimate and no higher index than \<open>i\<close>: it is the tied
  arm of lowest index. In general no active arm after \<open>reject\<close> is strictly greater,
  every active arm before it is strictly smaller or NaN, and \<open>reject\<close> has a NaN estimate
  exactly when the first active arm has, in which case it is that arm. The phase uses
  \<open>B\<close> through membership only: run on any list \<open>B'\<close> that holds the same set, it
  eliminates the same arm and differs in nothing else.
\<close>

theorem sr_phase_rejects_lowest_index:
  assumes run: "sr_phase bandit t st = Inr st'"
  shows "\<exists>mse_vals reject.
      sr_mse_vals st' = Some mse_vals
    \<and> py_max_key (active_items mse_vals (sr_B st)) = Inr (reject, mse_vals ! reject)
    \<and> reject \<in> set (sr_B st) \<and> reject < length mse_vals
    \<and> sr_B st' = removeAll reject (sr_B st)
    \<and> (\<forall>i \<in> set (sr_B st).
          i < length mse_vals
          \<and> (\<forall>j \<in> set (sr_B st). j < length mse_vals \<longrightarrow> fl_le (mse_vals ! j) (mse_vals ! i))
          \<longrightarrow> mse_vals ! reject = mse_vals ! i \<and> reject \<le> i)
    \<and> (\<forall>j \<in> set (sr_B st). j < length mse_vals \<and> reject < j
          \<longrightarrow> \<not> fl_less (mse_vals ! reject) (mse_vals ! j))
    \<and> (\<forall>j \<in> set (sr_B st). j < length mse_vals \<and> j < reject
          \<longrightarrow> fl_less (mse_vals ! j) (mse_vals ! reject) \<or> mse_vals ! j = NaN)
    \<and> (mse_vals ! reject = NaN \<longrightarrow> (\<forall>j \<in> set (sr_B st). j < length mse_vals \<longrightarrow> reject \<le> j))
    \<and> (\<forall>f \<in> set (sr_B st). f < length mse_vals \<and> mse_vals ! f = NaN
          \<and> (\<forall>j \<in> set (sr_B st). j < length mse_vals \<longrightarrow> f \<le> j) \<longrightarrow> reject = f)
    \<and> (\<forall>B'. set B' = set (sr_B st) \<longrightarrow>
          sr_phase bandit t (st\<lparr>sr_B := B'\<rparr>) = Inr (st'\<lparr>sr_B := removeAll reject B'\<rparr>))"
proof -
  from sr_phase_InrD [OF run] obtain vals r v where
    mx: "py_max_key (active_items vals (sr_B st)) = Inr (r, v)"
    and st': "sr_mse_vals st' = Some vals" "sr_B st' = removeAll r (sr_B st)" by auto
  note g = py_max_key_general [OF mx]
  have r: "r \<in> set (sr_B st)" "r < length vals" "v = vals ! r" using g by simp_all
  have later: "\<forall>j \<in> set (sr_B st). j < length vals \<and> r < j \<longrightarrow> \<not> fl_less (vals ! r) (vals ! j)"
    using g by blast
  have earlier: "\<forall>j \<in> set (sr_B st). j < length vals \<and> j < r
          \<longrightarrow> fl_less (vals ! j) (vals ! r) \<or> vals ! j = NaN"
    using g by blast
  have nan: "vals ! r = NaN \<longrightarrow> (\<forall>j \<in> set (sr_B st). j < length vals \<longrightarrow> r \<le> j)"
    using g by blast
  have first: "\<forall>f \<in> set (sr_B st). f < length vals \<and> vals ! f = NaN
          \<and> (\<forall>j \<in> set (sr_B st). j < length vals \<longrightarrow> f \<le> j) \<longrightarrow> r = f"
    using g by blast
  have tie: "\<forall>i \<in> set (sr_B st).
          i < length vals
          \<and> (\<forall>j \<in> set (sr_B st). j < length vals \<longrightarrow> fl_le (vals ! j) (vals ! i))
          \<longrightarrow> vals ! r = vals ! i \<and> r \<le> i"
  proof (intro ballI impI)
    fix i assume i: "i \<in> set (sr_B st)"
      "i < length vals \<and> (\<forall>j \<in> set (sr_B st). j < length vals \<longrightarrow> fl_le (vals ! j) (vals ! i))"
    then have ri: "fl_le (vals ! r) (vals ! i)" using r by simp
    have ii: "fl_le (vals ! i) (vals ! i)" using i by simp
    consider "i < r" | "i = r" | "r < i" by linarith
    then show "vals ! r = vals ! i \<and> r \<le> i"
    proof cases
      case 1
      then have "fl_less (vals ! i) (vals ! r) \<or> vals ! i = NaN" using earlier i by simp
      then show ?thesis using ri ii
        by (cases "vals ! i"; cases "vals ! r") (auto simp: fl_le_def fl_less_def)
    next
      case 2
      then show ?thesis by simp
    next
      case 3
      then have "\<not> fl_less (vals ! r) (vals ! i)" using later i by simp
      then show ?thesis using ri 3
        by (cases "vals ! i"; cases "vals ! r") (auto simp: fl_le_def fl_less_def)
    qed
  qed
  have order: "\<forall>B'. set B' = set (sr_B st) \<longrightarrow>
          sr_phase bandit t (st\<lparr>sr_B := B'\<rparr>) = Inr (st'\<lparr>sr_B := removeAll r B'\<rparr>)"
    using sr_phase_set_B [OF run _ st'(2) r(1)] by blast
  have mx': "py_max_key (active_items vals (sr_B st)) = Inr (r, vals ! r)" using mx r(3) by simp
  show ?thesis
    by (intro exI [of _ vals] exI [of _ r] conjI)
      (rule st'(1) mx' r(1) r(2) st'(2) tie later earlier nan first order)+
qed

theorem sr_phase_rejects_lowest_index_witness:
  "\<exists>st' mse_vals.
      sr_phase (demo_bandit 3) 0 (sr_init (demo_bandit 3) 0) = Inr st'
    \<and> sr_mse_vals st' = Some mse_vals
    \<and> py_max_key (active_items mse_vals [0, 1, 2]) = Inr (0, mse_vals ! 0)
    \<and> sr_B st' = [1, 2]
    \<and> sr_phase (demo_bandit 3) 0 ((sr_init (demo_bandit 3) 0)\<lparr>sr_B := [2, 0, 1]\<rparr>)
        = Inr (st'\<lparr>sr_B := [2, 1]\<rparr>)"
proof -
  let ?st = "sr_init (demo_bandit 3) 0"
  have B: "sr_B ?st = [0, 1, 2]" by (simp add: sr_init_def upt_rec numeral_3_eq_3)
  have "sr_B ?st = [0..<num_arms (demo_bandit 3)]" "sr_arms_dict ?st = []"
    "sr_mse_ests ?st = replicate (num_arms (demo_bandit 3)) 0"
    by (simp_all add: sr_init_def)
  from sr_phase_noop [OF _ this] obtain st' where
    run: "sr_phase (demo_bandit 3) 0 ?st = Inr st'" and B': "sr_B st' = [Suc 0..<3]" by auto
  from sr_phase_rejects_lowest_index [OF run, unfolded B] obtain mse_vals reject where
    f: "sr_mse_vals st' = Some mse_vals"
      "py_max_key (active_items mse_vals [0, 1, 2]) = Inr (reject, mse_vals ! reject)"
      "sr_B st' = removeAll reject [0, 1, 2]"
      "\<forall>B'. set B' = set [0, 1, 2] \<longrightarrow>
          sr_phase (demo_bandit 3) 0 (?st\<lparr>sr_B := B'\<rparr>) = Inr (st'\<lparr>sr_B := removeAll reject B'\<rparr>)"
    by (elim exE conjE) (rule that; assumption)
  have B12: "sr_B st' = [1, 2]" using B' by (simp add: upt_rec numeral_3_eq_3)
  have "0 \<notin> set (sr_B st')" by (simp add: B12)
  then have "0 \<notin> set [0, 1, 2::nat] - {reject}" unfolding f(3) set_removeAll .
  then have r0: "reject = 0" by auto
  have "set [2, 0, 1::nat] = set [0, 1, 2]" by auto
  then have "sr_phase (demo_bandit 3) 0 (?st\<lparr>sr_B := [2, 0, 1]\<rparr>)
      = Inr (st'\<lparr>sr_B := removeAll reject [2, 0, 1]\<rparr>)" using f(4) by blast
  then show ?thesis using run f(1,2) B12 r0
    by (intro exI [of _ st'] exI [of _ mse_vals]) simp
qed

section \<open>Successive Rejects below one sample per pair\<close>

lemma sample_arms_nonpos:
  "sz \<le> 0 \<Longrightarrow>
   sample_arms bandit g p sz = Inl SourceError \<or> sample_arms bandit g p sz = Inl ValueError"
  by (cases "sample_distr bandit g sz") (auto simp: sample_arms_def np_reshape_def)

lemma nonpos_list_split:
  "list_all (\<lambda>t. t \<le> (0::int)) ts \<Longrightarrow>
   ts = replicate (length ts) 0 \<or> (\<exists>m t rest. ts = replicate m 0 @ t # rest \<and> t < 0)"
proof (induction ts)
  case Nil
  then show ?case by simp
next
  case (Cons a ts)
  show ?case
  proof (cases "a = 0")
    case False
    then have "a # ts = replicate 0 0 @ a # ts \<and> a < 0" using Cons.prems by simp
    then show ?thesis by blast
  next
    case True
    from Cons have "ts = replicate (length ts) 0 \<or> (\<exists>m t rest. ts = replicate m 0 @ t # rest \<and> t < 0)"
      by simp
    then show ?thesis
    proof
      assume "ts = replicate (length ts) 0"
      then have "a # ts = replicate (length (a # ts)) 0" using True by simp
      then show ?thesis by blast
    next
      assume "\<exists>m t rest. ts = replicate m 0 @ t # rest \<and> t < 0"
      then obtain m t rest where "ts = replicate m 0 @ t # rest" "t < 0" by blast
      then have "a # ts = replicate (Suc m) 0 @ t # rest \<and> t < 0" using True by simp
      then show ?thesis by blast
    qed
  qed
qed

lemma sr_ts_all_nonpos:
  assumes "real_of_int trials \<le> sr_K2 K"
  shows "list_all (\<lambda>t. t \<le> 0) (sr_ts fp trials K)"
  unfolding list_all_length using sr_ts_nonpos [OF assms] by simp

lemma sr_loop_noop:
  assumes "j + m < num_arms bandit"
    and "sr_B st = [j..<num_arms bandit]"
    and "sr_arms_dict st = []"
    and "sr_mse_ests st = replicate (num_arms bandit) 0"
    and "m = 0 \<longrightarrow> sr_min_mse st = Some 0"
    and "(num_arms bandit - 2, num_arms bandit - 1) \<in> set (sr_A st)"
  shows "\<exists>st'. sr_loop bandit (replicate m 0) st = Inr st' \<and> sr_B st' = [j + m..<num_arms bandit]
           \<and> sr_arms_dict st' = []
           \<and> sr_mse_ests st' = replicate (num_arms bandit) 0 \<and> sr_min_mse st' = Some 0
           \<and> (num_arms bandit - 2, num_arms bandit - 1) \<in> set (sr_A st')"
  using assms
proof (induction m arbitrary: j st)
  case 0
  then show ?case by simp
next
  case (Suc m)
  have j: "j < num_arms bandit" using Suc.prems(1) by simp
  from sr_phase_noop [OF j Suc.prems(2,3,4)] obtain st1 where
    p: "sr_phase bandit 0 st = Inr st1" "sr_B st1 = [Suc j..<num_arms bandit]"
      "sr_arms_dict st1 = []" "sr_mse_ests st1 = replicate (num_arms bandit) 0"
      "sr_min_mse st1 = Some 0"
      "sr_A st1 = filter (\<lambda>p. fst p \<in> set [Suc j..<num_arms bandit]
                                      \<or> snd p \<in> set [Suc j..<num_arms bandit]) (sr_A st)"
    by blast
  have "num_arms bandit - 1 \<in> set [Suc j..<num_arms bandit]" using Suc.prems(1) by simp
  then have A: "(num_arms bandit - 2, num_arms bandit - 1) \<in> set (sr_A st1)"
    using Suc.prems(6) unfolding p(6) by simp
  have "Suc j + m < num_arms bandit" using Suc.prems(1) by simp
  from Suc.IH [OF this p(2,3,4) _ A] p(5) obtain st' where
    "sr_loop bandit (replicate m 0) st1 = Inr st'" "sr_B st' = [Suc j + m..<num_arms bandit]"
    "sr_arms_dict st' = []"
    "sr_mse_ests st' = replicate (num_arms bandit) 0" "sr_min_mse st' = Some 0"
    "(num_arms bandit - 2, num_arms bandit - 1) \<in> set (sr_A st')" by blast
  then show ?case using p(1) by simp
qed

lemma sr_init_noop:
  assumes "2 \<le> num_arms bandit"
  shows "sr_B (sr_init bandit g) = [0..<num_arms bandit]"
    "sr_arms_dict (sr_init bandit g) = []"
    "sr_mse_ests (sr_init bandit g) = replicate (num_arms bandit) 0"
    "(num_arms bandit - 2, num_arms bandit - 1) \<in> set (sr_A (sr_init bandit g))"
  using assms by (auto simp: sr_init_def set_all_pairs)

lemma sr_all_zero_run:
  assumes K: "2 \<le> num_arms bandit"
    and ts: "sr_ts fp trials (num_arms bandit) = replicate (num_arms bandit - 1) 0"
  shows "successive_rejects fp bandit g trials
     = Inr (num_arms bandit - 1, replicate (num_arms bandit) 0)"
proof -
  let ?K = "num_arms bandit"
  have 1: "0 + (?K - 1) < ?K" using K by simp
  have 2: "?K - 1 = 0 \<longrightarrow> sr_min_mse (sr_init bandit g) = Some 0" using K by simp
  note i = sr_init_noop [OF K, of g]
  from sr_loop_noop [OF 1 i(1) [simplified] i(2,3) 2 i(4)] obtain st where
    st: "sr_loop bandit (replicate (?K - 1) 0) (sr_init bandit g) = Inr st"
      "sr_B st = [0 + (?K - 1)..<?K]" "sr_mse_ests st = replicate ?K 0" "sr_min_mse st = Some 0"
    by blast
  have B: "sr_B st = [?K - 1]" using st(2) K by (simp add: upt_conv_Cons)
  have "sr_finish st = Inr (?K - 1, replicate ?K 0)"
    using K by (simp add: sr_finish_def B st(3,4) vec_set_def list_update_same_conv)
  then show ?thesis unfolding successive_rejects_def ts st(1) by simp
qed

lemma sr_negative_run:
  assumes K: "2 \<le> num_arms bandit"
    and ts: "sr_ts fp trials (num_arms bandit) = replicate m 0 @ t # rest" and t: "t < 0"
  shows "successive_rejects fp bandit g trials = Inl SourceError
       \<or> successive_rejects fp bandit g trials = Inl ValueError"
proof -
  let ?K = "num_arms bandit"
  have "length (replicate m (0::int) @ t # rest) = ?K - 1" using ts sr_ts_length [of fp trials ?K] by simp
  then have m: "0 + m < ?K" "m < ?K - 1" by simp_all
  have 2: "m = 0 \<longrightarrow> sr_min_mse (sr_init bandit g) = Some 0 \<or> True" by simp
  note i = sr_init_noop [OF K, of g]
  have "\<exists>st. sr_loop bandit (replicate m 0) (sr_init bandit g) = Inr st \<and> sr_arms_dict st = []
      \<and> (?K - 2, ?K - 1) \<in> set (sr_A st)"
  proof (cases m)
    case 0
    then show ?thesis using i by simp
  next
    case (Suc m')
    then have "m = 0 \<longrightarrow> sr_min_mse (sr_init bandit g) = Some 0" by simp
    from sr_loop_noop [OF m(1) i(1) [simplified] i(2,3) this i(4)] show ?thesis by blast
  qed
  then obtain st where
    st: "sr_loop bandit (replicate m 0) (sr_init bandit g) = Inr st"
      "(?K - 2, ?K - 1) \<in> set (sr_A st)" by blast
  then obtain p ps where A: "sr_A st = p # ps" by (cases "sr_A st") auto
  have "t \<noteq> 0" "t \<le> 0" using t by simp_all
  then have "sr_sample_loop bandit t (sr_A st) (sr_arms_dict st) (sr_gen st) = Inl SourceError
      \<or> sr_sample_loop bandit t (sr_A st) (sr_arms_dict st) (sr_gen st) = Inl ValueError"
    using sample_arms_nonpos [of t bandit "sr_gen st" p] by (auto simp: A)
  then have ph: "sr_phase bandit t st = Inl SourceError \<or> sr_phase bandit t st = Inl ValueError"
    by (auto simp: sr_phase_def)
  have "sr_loop bandit (replicate m 0 @ t # rest) (sr_init bandit g)
      = ebind (sr_phase bandit t st) (sr_loop bandit rest)"
    by (simp add: sr_loop_append st(1))
  then have "sr_loop bandit (sr_ts fp trials ?K) (sr_init bandit g) = Inl SourceError
      \<or> sr_loop bandit (sr_ts fp trials ?K) (sr_init bandit g) = Inl ValueError"
    using ph unfolding ts by auto
  then show ?thesis by (auto simp: successive_rejects_def)
qed

lemma sr_low_budget:
  assumes K: "2 \<le> num_arms bandit"
    and low: "real_of_int trials \<le> sr_K2 (num_arms bandit)"
  shows "(if sr_ts fp trials (num_arms bandit) = replicate (num_arms bandit - 1) 0
          then successive_rejects fp bandit g trials
                 = Inr (num_arms bandit - 1, replicate (num_arms bandit) 0)
          else successive_rejects fp bandit g trials = Inl SourceError
             \<or> successive_rejects fp bandit g trials = Inl ValueError)"
proof (cases "sr_ts fp trials (num_arms bandit) = replicate (num_arms bandit - 1) 0")
  case True
  then show ?thesis using sr_all_zero_run [OF K True] by simp
next
  case False
  let ?ts = "sr_ts fp trials (num_arms bandit)"
  have "?ts \<noteq> replicate (length ?ts) 0" using False by simp
  with nonpos_list_split [OF sr_ts_all_nonpos [OF low, of fp]]
  obtain m t rest where "?ts = replicate m 0 @ t # rest" "t < 0" by blast
  from sr_negative_run [OF K this] show ?thesis using False by simp
qed


text \<open>
  C8 (as amended). The run has no budget check and never fails with \<open>InvalidBudget\<close>. With
  at least two arms and a budget below \<open>K(K-1)/2\<close>, in every float arithmetic, no phase
  increment is positive. If all increments are 0, every phase is a no-op phase that
  draws nothing and the run returns normally: the arm \<open>K - 1\<close>, with an all-zero vector of
  estimates. Otherwise the first non-zero increment is negative, and the run ends in
  the sampler, asked for a negative number of samples: with the source's own exception
  or with the \<open>ValueError\<close> of the reshape.
\<close>

theorem successive_rejects_small_budget:
  assumes "2 \<le> num_arms bandit"
    and "real_of_int trials < sr_K2 (num_arms bandit)"
  shows "list_all (\<lambda>t. t \<le> 0) (sr_ts fp trials (num_arms bandit))
    \<and> (if sr_ts fp trials (num_arms bandit) = replicate (num_arms bandit - 1) 0
        then successive_rejects fp bandit g trials
               = Inr (num_arms bandit - 1, replicate (num_arms bandit) 0)
        else successive_rejects fp bandit g trials = Inl SourceError
           \<or> successive_rejects fp bandit g trials = Inl ValueError)
    \<and> successive_rejects fp bandit g trials \<noteq> Inl InvalidBudget"
proof -
  have low: "real_of_int trials \<le> sr_K2 (num_arms bandit)" using assms(2) by simp
  note run = sr_low_budget [OF assms(1) low, of fp g]
  have "successive_rejects fp bandit g trials \<noteq> Inl InvalidBudget"
    using run by (auto split: if_splits)
  then show ?thesis using sr_ts_all_nonpos [OF low, of fp] run by simp
qed

lemma sr_ck_exact_4: "sr_ck exact_arith 4 = 17 / 6"
  by (simp add: sr_ck_def upt_rec numeral_eq_Suc)

lemma sr_ck_exact_3: "sr_ck exact_arith 3 = 3 / 2"
  by (simp add: sr_ck_def upt_rec numeral_eq_Suc)

lemma sr_ck_exact_2: "sr_ck exact_arith 2 = 1 / 2"
  by (simp add: sr_ck_def upt_rec numeral_eq_Suc)

lemma sr_ts_exact_5_4: "sr_ts exact_arith 5 4 = [0, 0, 0]"
  by (simp add: sr_ts_def sr_ns_def sr_trials_def sr_ck_def sr_K2_def upt_rec numeral_eq_Suc)

lemma sr_ts_exact_0_2: "sr_ts exact_arith 0 2 = [- 1]"
  by (simp add: sr_ts_def sr_ns_def sr_trials_def sr_ck_def sr_K2_def upt_rec numeral_eq_Suc)

lemma sr_ts_exact_2_3: "sr_ts exact_arith 2 3 = [0, 0]"
  by (simp add: sr_ts_def sr_ns_def sr_trials_def sr_ck_def sr_K2_def upt_rec numeral_eq_Suc)

theorem successive_rejects_small_budget_witness:
  "sr_ts exact_arith 5 4 = [0, 0, 0]
   \<and> successive_rejects exact_arith (demo_bandit 4) 0 5 = Inr (3, [0, 0, 0, 0])
   \<and> sr_ts exact_arith 0 2 = [- 1]
   \<and> (successive_rejects exact_arith (demo_bandit 2) 0 0 = Inl SourceError
      \<or> successive_rejects exact_arith (demo_bandit 2) 0 0 = Inl ValueError)"
proof -
  have a1: "2 \<le> num_arms (demo_bandit 4)" by simp
  have a2: "real_of_int 5 < sr_K2 (num_arms (demo_bandit 4))" by (simp add: sr_K2_def)
  have b1: "2 \<le> num_arms (demo_bandit 2)" by simp
  have b2: "real_of_int 0 < sr_K2 (num_arms (demo_bandit 2))" by (simp add: sr_K2_def)
  have r4: "replicate (4 - 1) (0::int) = [0, 0, 0]" "replicate 4 (0::fl) = [0, 0, 0, 0]"
    "(4::nat) - 1 = 3" "replicate 3 (0::int) = [0, 0, 0]"
    by (simp_all add: numeral_eq_Suc)
  have r2: "replicate (2 - 1) (0::int) = [0]" "replicate 1 (0::int) = [0]" "(2::nat) - 1 = 1"
    by (simp_all add: numeral_eq_Suc)
  have ne: "[- 1] \<noteq> [0::int]" by simp
  have "successive_rejects exact_arith (demo_bandit 4) 0 5 = Inr (3, [0, 0, 0, 0])"
    using successive_rejects_small_budget [OF a1 a2, of exact_arith 0]
    unfolding num_arms_demo sr_ts_exact_5_4 r4 by (simp only: simp_thms if_True)
  moreover have "successive_rejects exact_arith (demo_bandit 2) 0 0 = Inl SourceError
      \<or> successive_rejects exact_arith (demo_bandit 2) 0 0 = Inl ValueError"
    using successive_rejects_small_budget [OF b1 b2, of exact_arith 0]
    unfolding num_arms_demo sr_ts_exact_0_2 r2 using ne by (simp only: simp_thms if_False)
  ultimately show ?thesis by (simp add: sr_ts_exact_5_4 sr_ts_exact_0_2)
qed

text \<open>
  C8 as the specification states it fails for three arms and a budget of 2, which is
  below \<open>K(K-1)/2 = 3\<close>: both increments are 0 (the quotients are \<open>-1/4.5\<close> and \<open>-1/3\<close>, the
  same in doubles), and the run does not fail with \<open>InvalidBudget\<close>, it returns arm 2.
\<close>

theorem successive_rejects_budget_counterexample:
  "real_of_int 2 < sr_K2 3
   \<and> sr_ts exact_arith 2 3 = [0, 0]
   \<and> successive_rejects exact_arith (demo_bandit 3) 0 2 = Inr (2, [0, 0, 0])
   \<and> successive_rejects exact_arith (demo_bandit 3) 0 2 \<noteq> Inl InvalidBudget"
proof -
  have 1: "2 \<le> num_arms (demo_bandit 3)" by simp
  have "replicate (3 - 1) (0::int) = [0, 0]" by (simp add: numeral_eq_Suc)
  then have ts: "sr_ts exact_arith 2 (num_arms (demo_bandit 3)) = replicate (num_arms (demo_bandit 3) - 1) 0"
    unfolding num_arms_demo sr_ts_exact_2_3 by simp
  have "successive_rejects exact_arith (demo_bandit 3) 0 2 = Inr (2, [0, 0, 0])"
    using sr_all_zero_run [OF 1 ts, of 0] by (simp add: numeral_eq_Suc)
  then show ?thesis by (simp add: sr_K2_def sr_ts_exact_2_3)
qed

end
